theory Spec2Isabelle
  imports
    Main
    "HOL-Library.Char_ord"
    "HOL-Library.List_Lexorder"
    "HOL-Library.Multiset"
    "HOL-Library.Sublist"
begin

section \<open>The services command of space-cli\<close>

text \<open>
  The program is \<^verbatim>\<open>examples/commands/services.py\<close>: its \<^verbatim>\<open>main\<close> reads one JSON
  document from standard input, prints three header lines and a blank line, and then
  either \<^verbatim>\<open>No services configured.\<close> or one block of five lines for every service, in
  the order \<^verbatim>\<open>sorted(services.items())\<close> gives.

  The model follows the Python text statement by statement. A run is the pair of the
  exception that ended it (if any) and the bytes it wrote to standard output before.
\<close>

subsection \<open>Values\<close>

text \<open>
  What \<^verbatim>\<open>json.load\<close> returns. A Python \<^verbatim>\<open>str\<close> is the list of the bytes of its UTF-8
  encoding (the order of such byte lists is the order of the code points, which is how
  Python compares strings); a string with a lone surrogate has no such encoding and is
  not covered, and standard output is taken to be UTF-8. A \<^verbatim>\<open>dict\<close> is the list of
  its items in iteration order; Python keeps its keys distinct. A \<^verbatim>\<open>float\<close> is held as
  the text that \<^verbatim>\<open>repr\<close> gives for it: the program only prints floats and tests
  them for zero.
\<close>

datatype json =
    JNull
  | JBool bool
  | JInt int
  | JFloat string
  | JStr string
  | JArr "json list"
  | JObj "(string \<times> json) list"

text \<open>
  The exceptions a run can end with. \<open>JSONDecodeError\<close> stands for whatever
  \<^verbatim>\<open>json.load\<close> raises; \<open>KeyError\<close> carries the key that was missing.
\<close>

datatype error =
    JSONDecodeError
  | KeyError string
  | TypeError
  | AttributeError

text \<open>
  The two pieces of the Python library that \<^verbatim>\<open>main\<close> relies on: the decoder (\<open>None\<close>
  when \<^verbatim>\<open>json.load\<close> raises) and \<^verbatim>\<open>repr\<close> of a \<^verbatim>\<open>str\<close> (its quoting and escaping),
  which is needed only when a printed value is a list or a dict that contains strings.
  \<open>main\<close> is stated over any such library; the decoder that Python has is \<open>python\<close>
  below.
\<close>

record stdlib =
  json_load :: "string \<Rightarrow> json option"
  repr_str :: "string \<Rightarrow> string"

subsection \<open>Rendering of values\<close>

text \<open>\<^verbatim>\<open>str(n)\<close> of a Python \<^verbatim>\<open>int\<close>: decimal digits, a minus sign when negative.\<close>

fun show_nat :: "nat \<Rightarrow> string" where
  "show_nat n =
     (if n < 10 then [''0123456789'' ! n]
      else show_nat (n div 10) @ [''0123456789'' ! (n mod 10)])"

declare show_nat.simps [simp del]

definition show_int :: "int \<Rightarrow> string" where
  "show_int i = (if i < 0 then CHR ''-'' # show_nat (nat (- i)) else show_nat (nat i))"

text \<open>\<^verbatim>\<open>sep.join(parts)\<close>.\<close>

fun join :: "string \<Rightarrow> string list \<Rightarrow> string" where
  "join sep [] = []"
| "join sep [p] = p"
| "join sep (p # q # ps) = p @ sep @ join sep (q # ps)"

text \<open>
  \<^verbatim>\<open>repr(v)\<close> of a decoded value: \<^verbatim>\<open>None\<close>, \<^verbatim>\<open>True\<close>, \<^verbatim>\<open>False\<close>, numbers as
  \<^verbatim>\<open>str\<close> gives them, strings quoted, lists and dicts with their elements' \<^verbatim>\<open>repr\<close>.
\<close>

fun py_repr :: "stdlib \<Rightarrow> json \<Rightarrow> string" where
  "py_repr L JNull = ''None''"
| "py_repr L (JBool b) = (if b then ''True'' else ''False'')"
| "py_repr L (JInt i) = show_int i"
| "py_repr L (JFloat r) = r"
| "py_repr L (JStr s) = repr_str L s"
| "py_repr L (JArr xs) = ''['' @ join '', '' (map (py_repr L) xs) @ '']''"
| "py_repr L (JObj kvs) =
     ''{'' @ join '', '' (map (\<lambda>kv. repr_str L (fst kv) @ '': '' @ py_repr L (snd kv)) kvs) @ ''}''"

text \<open>
  What an f-string puts in place of \<^verbatim>\<open>{v}\<close>: \<^verbatim>\<open>format(v, '')\<close>, which is \<^verbatim>\<open>str(v)\<close>.
  A string stands for itself; every other value prints as its \<^verbatim>\<open>repr\<close>.
\<close>

fun py_str :: "stdlib \<Rightarrow> json \<Rightarrow> string" where
  "py_str L (JStr s) = s"
| "py_str L v = py_repr L v"

subsection \<open>Operations on values\<close>

text \<open>\<^verbatim>\<open>v[key]\<close> with a string key: a dict looks the key up, anything else raises.\<close>

fun subscript :: "json \<Rightarrow> string \<Rightarrow> error + json" where
  "subscript (JObj kvs) k = (case map_of kvs k of None \<Rightarrow> Inl (KeyError k) | Some v \<Rightarrow> Inr v)"
| "subscript v k = Inl TypeError"

text \<open>\<^verbatim>\<open>v.get(key, default)\<close>: only a dict has the method.\<close>

fun dict_get :: "json \<Rightarrow> string \<Rightarrow> json \<Rightarrow> error + json" where
  "dict_get (JObj kvs) k d = Inr (case map_of kvs k of None \<Rightarrow> d | Some v \<Rightarrow> v)"
| "dict_get v k d = Inl AttributeError"

text \<open>\<^verbatim>\<open>v.items()\<close>: only a dict has the method.\<close>

fun items :: "json \<Rightarrow> error + (string \<times> json) list" where
  "items (JObj kvs) = Inr kvs"
| "items v = Inl AttributeError"

text \<open>Truth value of a decoded value, as \<^verbatim>\<open>not v\<close> tests it.\<close>

fun truthy :: "json \<Rightarrow> bool" where
  "truthy JNull = False"
| "truthy (JBool b) = b"
| "truthy (JInt i) = (i \<noteq> 0)"
| "truthy (JFloat r) = (r \<noteq> ''0.0'' \<and> r \<noteq> ''-0.0'')"
| "truthy (JStr s) = (s \<noteq> [])"
| "truthy (JArr xs) = (xs \<noteq> [])"
| "truthy (JObj kvs) = (kvs \<noteq> [])"

subsection \<open>Runs\<close>

text \<open>
  A run, or a part of one: the exception raised (\<open>None\<close> when it completed) and the
  bytes written to standard output up to there.
\<close>

type_synonym run = "error option \<times> string"

definition raise :: "error \<Rightarrow> run" where
  "raise e = (Some e, [])"

text \<open>\<^verbatim>\<open>print(s)\<close> writes the text and a newline.\<close>

definition py_print :: "string \<Rightarrow> run" where
  "py_print s = (None, s @ [CHR 0x0A])"

text \<open>Two statements in sequence: the second runs only when the first did not raise.\<close>

fun and_then :: "run \<Rightarrow> run \<Rightarrow> run" where
  "and_then (Some e, out) r = (Some e, out)"
| "and_then (None, out) (r, out') = (r, out @ out')"

text \<open>
  \<^verbatim>\<open>print(f"<label>{obj[key]}")\<close>: the f-string is evaluated first, so a failing lookup
  raises before the line is written.
\<close>

definition print_field :: "stdlib \<Rightarrow> string \<Rightarrow> json \<Rightarrow> string \<Rightarrow> run" where
  "print_field L label obj key =
     (case subscript obj key of
        Inl e \<Rightarrow> raise e
      | Inr v \<Rightarrow> py_print (label @ py_str L v))"

subsection \<open>The program\<close>

text \<open>The body of the \<^verbatim>\<open>for name, svc in ...\<close> loop, over the items still to visit.\<close>

fun for_services :: "stdlib \<Rightarrow> (string \<times> json) list \<Rightarrow> run" where
  "for_services L [] = (None, [])"
| "for_services L ((name, svc) # rest) =
     and_then (py_print (''  '' @ name @ '':''))
    (and_then (print_field L ''    DNS:  '' svc ''dns_name'')
    (and_then (print_field L ''    Port: '' svc ''internal_port'')
    (and_then (print_field L ''    URL:  '' svc ''url'')
    (and_then (py_print [])
    (for_services L rest)))))"

text \<open>
  \<^verbatim>\<open>main\<close>. \<^verbatim>\<open>sorted\<close> compares the items as pairs; the names of a dict differ, so the
  comparison is decided by the names and the second components are never compared.
\<close>

definition main :: "stdlib \<Rightarrow> string \<Rightarrow> run" where
  "main L stdin =
     (case json_load L stdin of
        None \<Rightarrow> raise JSONDecodeError
      | Some context \<Rightarrow>
          and_then (print_field L ''Project: '' context ''project_name'')
         (and_then (print_field L ''Hash: '' context ''hash'')
         (and_then (print_field L ''Domain: '' context ''base_domain'')
         (and_then (py_print [])
         (case dict_get context ''services'' (JObj []) of
            Inl e \<Rightarrow> raise e
          | Inr services \<Rightarrow>
              if \<not> truthy services then py_print ''No services configured.''
              else
                and_then (py_print ''Services:'')
               (case items services of
                  Inl e \<Rightarrow> raise e
                | Inr its \<Rightarrow> for_services L (sort_key fst its)))))))"

subsection \<open>The decoder\<close>

text \<open>
  \<^verbatim>\<open>json.load\<close> is not code of the repository: it is the decoder of the Python library
  (\<^verbatim>\<open>json/decoder.py\<close> and \<^verbatim>\<open>json/scanner.py\<close>), called with its defaults. What follows
  is that decoder on the text of standard input. Two conversions are taken as given:
  the text \<^verbatim>\<open>repr\<close> gives for the float that a number literal with a fraction or an
  exponent denotes, and what the scanner makes of the backslash escapes of a string
  (\<open>None\<close> where it raises). The interpreter's limits (recursion depth, the number of
  digits of an integer) are not part of the model.
\<close>

record conversions =
  float_repr :: "string \<Rightarrow> string"
  unescape :: "string \<Rightarrow> string option"

text \<open>\<^verbatim>\<open>WHITESPACE\<close>: blanks, tabs, line feeds and carriage returns.\<close>

definition is_ws :: "char \<Rightarrow> bool" where
  "is_ws c = (c = CHR '' '' \<or> c = CHR 0x09 \<or> c = CHR 0x0A \<or> c = CHR 0x0D)"

definition skip_ws :: "string \<Rightarrow> string" where
  "skip_ws s = dropWhile is_ws s"

text \<open>
  \<^verbatim>\<open>scanstring\<close>, from behind the opening quote: the text up to the closing quote and
  what follows it. A backslash takes the next character with it; a control character
  ends the scan with an error (the decoder is strict), and so does the end of the text.
\<close>

fun scan_raw :: "string \<Rightarrow> (string \<times> string) option" where
  "scan_raw [] = None"
| "scan_raw (c # cs) =
     (if c = CHR 0x22 then Some ([], cs)
      else if (of_char c :: nat) < 0x20 then None
      else if c = CHR 0x5C then
        (case cs of
           [] \<Rightarrow> None
         | e # es \<Rightarrow> map_option (\<lambda>(raw, rest). (c # e # raw, rest)) (scan_raw es))
      else map_option (\<lambda>(raw, rest). (c # raw, rest)) (scan_raw cs))"

definition string_value :: "conversions \<Rightarrow> string \<Rightarrow> string option" where
  "string_value C raw = (if CHR 0x5C \<in> set raw then unescape C raw else Some raw)"

definition scanstring :: "conversions \<Rightarrow> string \<Rightarrow> (string \<times> string) option" where
  "scanstring C s =
     (case scan_raw s of
        None \<Rightarrow> None
      | Some (raw, rest) \<Rightarrow> map_option (\<lambda>t. (t, rest)) (string_value C raw))"

text \<open>
  \<^verbatim>\<open>NUMBER_RE\<close>: an optional minus sign and \<^verbatim>\<open>0\<close> or a number without leading zero,
  then optionally a point with digits, then optionally an exponent. The result is the
  three groups and the rest of the text.
\<close>

definition is_dec :: "char \<Rightarrow> bool" where
  "is_dec c = (CHR ''0'' \<le> c \<and> c \<le> CHR ''9'')"

definition match_frac :: "string \<Rightarrow> string \<times> string" where
  "match_frac s =
     (case s of
        d # f # fs \<Rightarrow>
          if d = CHR ''.'' \<and> is_dec f then (d # f # takeWhile is_dec fs, dropWhile is_dec fs)
          else ([], s)
      | _ \<Rightarrow> ([], s))"

definition match_exp :: "string \<Rightarrow> string \<times> string" where
  "match_exp s =
     (case s of
        [] \<Rightarrow> ([], s)
      | e # r \<Rightarrow>
          if e = CHR ''e'' \<or> e = CHR ''E'' then
            (let sign = (case r of
                           [] \<Rightarrow> []
                         | g # _ \<Rightarrow> if g = CHR ''-'' \<or> g = CHR ''+'' then [g] else []);
                 ds = drop (length sign) r
             in if ds \<noteq> [] \<and> is_dec (hd ds)
                then (e # sign @ takeWhile is_dec ds, dropWhile is_dec ds)
                else ([], s))
          else ([], s))"

definition match_number :: "string \<Rightarrow> (string \<times> string \<times> string \<times> string) option" where
  "match_number s =
     (let sign = (case s of [] \<Rightarrow> [] | g # _ \<Rightarrow> if g = CHR ''-'' then [g] else []);
          s1 = drop (length sign) s
      in case s1 of
           [] \<Rightarrow> None
         | d # ds \<Rightarrow>
             if \<not> is_dec d then None
             else
               (let digits = (if d = CHR ''0'' then [d] else d # takeWhile is_dec ds);
                    s2 = drop (length digits) s1;
                    (frac, s3) = match_frac s2;
                    (ex, s4) = match_exp s3
                in Some (sign @ digits, frac, ex, s4)))"

text \<open>\<^verbatim>\<open>int(text)\<close> of the integer group.\<close>

definition digit_value :: "char \<Rightarrow> nat" where
  "digit_value c = of_char c - 48"

definition decimal_value :: "string \<Rightarrow> nat" where
  "decimal_value s = foldl (\<lambda>a c. 10 * a + digit_value c) 0 s"

definition parse_int :: "string \<Rightarrow> int" where
  "parse_int s =
     (case s of
        [] \<Rightarrow> 0
      | g # ds \<Rightarrow> if g = CHR ''-'' then - int (decimal_value ds) else int (decimal_value s))"

text \<open>
  \<^verbatim>\<open>d[key] = value\<close> on a dict under construction: a key that is there keeps its
  place and takes the new value, a new key goes to the end.
\<close>

fun dict_set :: "(string \<times> json) list \<Rightarrow> string \<Rightarrow> json \<Rightarrow> (string \<times> json) list" where
  "dict_set [] k v = [(k, v)]"
| "dict_set ((k', v') # d) k v = (if k' = k then (k', v) # d else (k', v') # dict_set d k v)"

text \<open>
  The three literals beyond the standard that the decoder reads (its default
  \<^verbatim>\<open>parse_constant\<close>). The flag says whether they are read: it is \<open>True\<close> for the
  decoder as \<^verbatim>\<open>main\<close> calls it, and \<open>False\<close> gives the grammar of the standard.
\<close>

definition scan_constant :: "bool \<Rightarrow> string \<Rightarrow> (json \<times> string) option" where
  "scan_constant constants s =
     (if constants \<and> take 3 s = ''NaN'' then Some (JFloat ''nan'', drop 3 s)
      else if constants \<and> take 8 s = ''Infinity'' then Some (JFloat ''inf'', drop 8 s)
      else if constants \<and> take 9 s = ''-Infinity'' then Some (JFloat ''-inf'', drop 9 s)
      else None)"

text \<open>The values that are neither strings nor containers, in the scanner's order.\<close>

definition scan_atom :: "bool \<Rightarrow> conversions \<Rightarrow> string \<Rightarrow> (json \<times> string) option" where
  "scan_atom constants C s =
     (if take 4 s = ''null'' then Some (JNull, drop 4 s)
      else if take 4 s = ''true'' then Some (JBool True, drop 4 s)
      else if take 5 s = ''false'' then Some (JBool False, drop 5 s)
      else
        (case match_number s of
           Some (integer, frac, ex, rest) \<Rightarrow>
             Some (if frac \<noteq> [] \<or> ex \<noteq> [] then JFloat (float_repr C (integer @ frac @ ex))
                   else JInt (parse_int integer), rest)
         | None \<Rightarrow> scan_constant constants s))"

text \<open>
  \<^verbatim>\<open>scan_once\<close> reads one value at the start of the text and returns it with the rest;
  \<^verbatim>\<open>parse_array\<close> and \<^verbatim>\<open>parse_object\<close> are the loops of \<^verbatim>\<open>JSONArray\<close> and
  \<^verbatim>\<open>JSONObject\<close>, from the first element or key on, with the elements read so far.
  The tests \<open>length r < length s\<close> are there for the termination proof only: what a
  scan leaves is always shorter than what it started from (\<open>scan_rest\<close> below), so they
  never fail (\<open>parse_array_unguarded\<close>, \<open>parse_object_unguarded\<close>).
\<close>

function scan_once :: "bool \<Rightarrow> conversions \<Rightarrow> string \<Rightarrow> (json \<times> string) option"
  and parse_array :: "bool \<Rightarrow> conversions \<Rightarrow> string \<Rightarrow> json list \<Rightarrow> (json \<times> string) option"
  and parse_object ::
    "bool \<Rightarrow> conversions \<Rightarrow> string \<Rightarrow> (string \<times> json) list \<Rightarrow> (json \<times> string) option"
where
  "scan_once a C [] = None"
| "scan_once a C (c # cs) =
     (if c = CHR 0x22 then
        map_option (\<lambda>(t, rest). (JStr t, rest)) (scanstring C cs)
      else if c = CHR ''{'' then
        (case skip_ws cs of
           [] \<Rightarrow> None
         | d # r \<Rightarrow> if d = CHR ''}'' then Some (JObj [], r) else parse_object a C (d # r) [])
      else if c = CHR ''['' then
        (case skip_ws cs of
           [] \<Rightarrow> None
         | d # r \<Rightarrow> if d = CHR '']'' then Some (JArr [], r) else parse_array a C (d # r) [])
      else scan_atom a C (c # cs))"
| "parse_array a C s vs =
     (case scan_once a C s of
        None \<Rightarrow> None
      | Some (v, r) \<Rightarrow>
          (case skip_ws r of
             [] \<Rightarrow> None
           | d # r' \<Rightarrow>
               if d = CHR '']'' then Some (JArr (vs @ [v]), r')
               else if d = CHR '','' \<and> length r' < length s then
                 parse_array a C (skip_ws r') (vs @ [v])
               else None))"
| "parse_object a C s kvs =
     (case s of
        [] \<Rightarrow> None
      | q # cs \<Rightarrow>
          if q \<noteq> CHR 0x22 then None
          else
            (case scanstring C cs of
               None \<Rightarrow> None
             | Some (key, r1) \<Rightarrow>
                 (case skip_ws r1 of
                    [] \<Rightarrow> None
                  | d # r2 \<Rightarrow>
                      if d \<noteq> CHR '':'' then None
                      else
                        (case scan_once a C (skip_ws r2) of
                           None \<Rightarrow> None
                         | Some (v, r3) \<Rightarrow>
                             (case skip_ws r3 of
                                [] \<Rightarrow> None
                              | e # r4 \<Rightarrow>
                                  if e = CHR ''}'' then Some (JObj (dict_set kvs key v), r4)
                                  else if e = CHR '','' \<and> length r4 < length s then
                                    parse_object a C (skip_ws r4) (dict_set kvs key v)
                                  else None)))))"
  by pat_completeness auto
termination
proof -
  have ws_le: "length (skip_ws s) \<le> length s" for s
    by (simp add: skip_ws_def length_dropWhile_le)
  have ws_Cons: "length r < length s" if "skip_ws s = d # r" for s d r
    using ws_le [of s] that by simp
  have raw: "scan_raw s = Some (t, r) \<Longrightarrow> length r < length s" for s t r
    by (induction s arbitrary: t rule: scan_raw.induct)
       (fastforce split: if_splits list.splits)+
  have string: "length r < length s" if "scanstring C s = Some (t, r)" for C s t r
    using that by (auto simp: scanstring_def dest: raw split: option.splits)
  show ?thesis
  proof (relation "measure (\<lambda>x. case x of
        Inl (a, C, s) \<Rightarrow> 2 * length s
      | Inr (Inl (a, C, s, vs)) \<Rightarrow> 2 * length s + 1
      | Inr (Inr (a, C, s, kvs)) \<Rightarrow> 2 * length s + 1)", goal_cases)
    case 1
    show ?case by simp
  next
    case (2 a C c cs d r)
    then show ?case using ws_Cons [of cs d r] by simp
  next
    case (3 a C c cs d r)
    then show ?case using ws_Cons [of cs d r] by simp
  next
    case (4 a C s vs)
    show ?case by simp
  next
    case (5 a C s vs x v r d r')
    then show ?case using ws_le [of r'] by simp
  next
    case (6 a C s kvs q cs x key r1 d r2)
    then show ?case
      using string [of C cs key r1] ws_Cons [of r1 d r2] ws_le [of r2] by simp
  next
    case (7 a C s kvs q cs x key r1 d r2 y v r3 e r4)
    then show ?case using ws_le [of r4] by simp
  qed
qed

declare scan_once.simps(2) [simp del] parse_array.simps [simp del] parse_object.simps [simp del]

text \<open>
  \<^verbatim>\<open>json.load\<close>: one value, with whitespace before and after it and nothing else.
\<close>

definition json_loads :: "bool \<Rightarrow> conversions \<Rightarrow> string \<Rightarrow> json option" where
  "json_loads constants C s =
     (case scan_once constants C (skip_ws s) of
        None \<Rightarrow> None
      | Some (v, r) \<Rightarrow> if skip_ws r = [] then Some v else None)"

text \<open>The library as \<^verbatim>\<open>main\<close> finds it: the decoder with its defaults.\<close>

definition python :: "conversions \<Rightarrow> (string \<Rightarrow> string) \<Rightarrow> stdlib" where
  "python C rs = \<lparr>json_load = json_loads True C, repr_str = rs\<rparr>"

subsection \<open>The report as the specification words it\<close>

text \<open>
  The text the specification describes, written independently of \<open>main\<close>: lines ended
  by a newline, a header of three labelled lines and a blank line, and for every service
  a line with its name, three labelled lines and a blank line.
\<close>

definition unlines :: "string list \<Rightarrow> string" where
  "unlines ls = concat (map (\<lambda>l. l @ [CHR 0x0A]) ls)"

definition header_fields :: "(string \<times> string) list" where
  "header_fields =
     [(''project_name'', ''Project: ''), (''hash'', ''Hash: ''), (''base_domain'', ''Domain: '')]"

definition service_fields :: "(string \<times> string) list" where
  "service_fields =
     [(''dns_name'', ''    DNS:  ''), (''internal_port'', ''    Port: ''), (''url'', ''    URL:  '')]"

text \<open>The value is a dict that has every one of the keys.\<close>

fun has_keys :: "json \<Rightarrow> string list \<Rightarrow> bool" where
  "has_keys (JObj kvs) ks = list_all (\<lambda>k. map_of kvs k \<noteq> None) ks"
| "has_keys v ks = False"

text \<open>One labelled line (without its newline): the label, then the field's value as text.\<close>

fun field_line :: "stdlib \<Rightarrow> json \<Rightarrow> string \<times> string \<Rightarrow> string" where
  "field_line L (JObj kvs) (key, label) =
     label @ (case map_of kvs key of None \<Rightarrow> [] | Some v \<Rightarrow> py_str L v)"
| "field_line L v (key, label) = label"

definition header_text :: "stdlib \<Rightarrow> json \<Rightarrow> string" where
  "header_text L context = unlines (map (field_line L context) header_fields @ [[]])"

definition service_block :: "stdlib \<Rightarrow> string \<times> json \<Rightarrow> string" where
  "service_block L e =
     unlines ((''  '' @ fst e @ '':'') # map (field_line L (snd e)) service_fields @ [[]])"

text \<open>
  The natural decimal representation of an integer: a minus sign when it is negative,
  then digits only, no leading zero unless the number is zero, and the digits read back
  as the number's absolute value.
\<close>

definition is_digit :: "char \<Rightarrow> bool" where
  "is_digit c = (c \<in> set ''0123456789'')"

definition is_decimal_of :: "string \<Rightarrow> int \<Rightarrow> bool" where
  "is_decimal_of s i =
     (let ds = (if i < 0 then tl s else s) in
      (i < 0 \<longrightarrow> s \<noteq> [] \<and> hd s = CHR ''-'') \<and>
      ds \<noteq> [] \<and>
      list_all is_digit ds \<and>
      (hd ds = CHR ''0'' \<longrightarrow> ds = ''0'') \<and>
      int (decimal_value ds) = \<bar>i\<bar>)"

text \<open>
  Two values that differ at most in the order in which a dict lists its items (one
  level deep): what a different iteration order of the \<^verbatim>\<open>services\<close> mapping would be.
\<close>

fun reordered :: "json \<Rightarrow> json \<Rightarrow> bool" where
  "reordered (JObj a) (JObj b) = (a = b \<or> distinct (map fst a) \<and> mset a = mset b)"
| "reordered v w = (v = w)"

text \<open>
  A text is valid JSON when the decoder accepts it without the three literals beyond
  the standard: apart from them, the decoder's grammar is the grammar of the standard.
\<close>

definition valid_json :: "conversions \<Rightarrow> string \<Rightarrow> bool" where
  "valid_json C s = (json_loads False C s \<noteq> None)"

text \<open>The text contains neither \<^verbatim>\<open>NaN\<close> nor \<^verbatim>\<open>Infinity\<close> (nor, then, \<^verbatim>\<open>-Infinity\<close>).\<close>

definition no_constants :: "string \<Rightarrow> bool" where
  "no_constants s = (\<not> sublist ''NaN'' s \<and> \<not> sublist ''Infinity'' s)"

text \<open>
  The natural text of a value, as a relation between the value and its text, stated
  case by case and without reference to the functions that compute it: \<open>repr_text\<close> is
  the text of a value inside a list or a dict, \<open>str_text\<close> the text of a value that is
  printed. An integer appears as its natural decimal representation, a float as the
  text \<^verbatim>\<open>repr\<close> gives for it, \<^verbatim>\<open>null\<close>, \<^verbatim>\<open>true\<close> and \<^verbatim>\<open>false\<close> as \<^verbatim>\<open>None\<close>, \<^verbatim>\<open>True\<close> and
  \<^verbatim>\<open>False\<close>. A printed string is the string itself; inside a container it is quoted
  as \<^verbatim>\<open>repr\<close> quotes it. A list is its elements' texts between brackets, a dict its
  items as \<^verbatim>\<open>key: value\<close> between braces, in both separated by a comma and a blank.
\<close>

inductive repr_text :: "stdlib \<Rightarrow> json \<Rightarrow> string \<Rightarrow> bool"
  and elements_text :: "stdlib \<Rightarrow> json list \<Rightarrow> string \<Rightarrow> bool"
  and items_text :: "stdlib \<Rightarrow> (string \<times> json) list \<Rightarrow> string \<Rightarrow> bool"
where
  repr_null: "repr_text L JNull ''None''"
| repr_true: "repr_text L (JBool True) ''True''"
| repr_false: "repr_text L (JBool False) ''False''"
| repr_int: "is_decimal_of t i \<Longrightarrow> repr_text L (JInt i) t"
| repr_float: "repr_text L (JFloat r) r"
| repr_string: "repr_text L (JStr s) (repr_str L s)"
| repr_list: "elements_text L xs t \<Longrightarrow> repr_text L (JArr xs) (''['' @ t @ '']'')"
| repr_dict: "items_text L kvs t \<Longrightarrow> repr_text L (JObj kvs) (''{'' @ t @ ''}'')"
| no_element: "elements_text L [] []"
| last_element: "repr_text L x t \<Longrightarrow> elements_text L [x] t"
| more_elements:
    "repr_text L x t \<Longrightarrow> elements_text L (y # ys) ts \<Longrightarrow>
     elements_text L (x # y # ys) (t @ '', '' @ ts)"
| no_item: "items_text L [] []"
| last_item: "repr_text L v t \<Longrightarrow> items_text L [(k, v)] (repr_str L k @ '': '' @ t)"
| more_items:
    "repr_text L v t \<Longrightarrow> items_text L (kv # kvs) ts \<Longrightarrow>
     items_text L ((k, v) # kv # kvs) (repr_str L k @ '': '' @ t @ '', '' @ ts)"

definition str_text :: "stdlib \<Rightarrow> json \<Rightarrow> string \<Rightarrow> bool" where
  "str_text L v t = (case v of JStr s \<Rightarrow> t = s | _ \<Rightarrow> repr_text L v t)"

subsection \<open>Example documents\<close>

text \<open>
  The documents of the specification's scenarios, used to instantiate the theorems. In
  the examples the decoder is a table from the text on standard input to the document
  it decodes to, and \<^verbatim>\<open>repr\<close> of a string puts it between single quotes (what Python
  does for a string without quotes, backslashes or unprintable characters).
\<close>

definition quoted :: "string \<Rightarrow> string" where
  "quoted s = CHR 0x27 # s @ [CHR 0x27]"

definition reading :: "(string \<times> json) list \<Rightarrow> stdlib" where
  "reading table = \<lparr>json_load = map_of table, repr_str = quoted\<rparr>"

definition acme :: "(string \<times> json) list" where
  "acme = [(''project_name'', JStr ''acme''), (''hash'', JStr ''abc123''),
           (''base_domain'', JStr ''acme.dev'')]"

definition acme_doc :: "json \<Rightarrow> json" where
  "acme_doc services = JObj (acme @ [(''services'', services)])"

definition web :: "string \<times> json" where
  "web = (''web'', JObj [(''dns_name'', JStr ''web.svc''), (''internal_port'', JInt 8080),
                         (''url'', JStr ''http://web.acme.dev'')])"

definition api :: "string \<times> json" where
  "api = (''api'', JObj [(''dns_name'', JStr ''api.svc''), (''internal_port'', JInt 9090),
                         (''url'', JStr ''http://api.acme.dev'')])"

text \<open>A service entry without \<^verbatim>\<open>dns_name\<close> and \<^verbatim>\<open>url\<close>.\<close>

definition db :: "string \<times> json" where
  "db = (''db'', JObj [(''internal_port'', JInt 5432)])"

text \<open>A service entry whose three sub-fields have other types than the schema says.\<close>

definition odd :: "string \<times> json" where
  "odd = (''odd'', JObj [(''dns_name'', JNull), (''internal_port'', JStr ''8080''),
                         (''url'', JArr [JFloat ''80.5'', JBool True, JStr ''x''])])"

text \<open>
  A document that is not valid JSON: the port of its one service is \<^verbatim>\<open>NaN\<close>. The text
  has no float literal and no backslash, so the conversions play no part in decoding it.
\<close>

definition plain :: conversions where
  "plain = \<lparr>float_repr = (\<lambda>s. s), unescape = (\<lambda>s. None)\<rparr>"

definition dq :: "string \<Rightarrow> string" where
  "dq s = CHR 0x22 # s @ [CHR 0x22]"

definition nan_text :: string where
  "nan_text =
     ''{'' @ dq ''project_name'' @ '': '' @ dq ''acme'' @ '', '' @
             dq ''hash'' @ '': '' @ dq ''abc123'' @ '', '' @
             dq ''base_domain'' @ '': '' @ dq ''acme.dev'' @ '', '' @
             dq ''services'' @ '': {'' @ dq ''web'' @ '': {'' @
               dq ''dns_name'' @ '': '' @ dq ''web.svc'' @ '', '' @
               dq ''internal_port'' @ '': NaN, '' @
               dq ''url'' @ '': '' @ dq ''http://web.acme.dev'' @ ''}}}''"

section \<open>Basic facts\<close>

subsection \<open>Lines and runs\<close>

lemma unlines_Nil [simp]: "unlines [] = []"
  by (simp add: unlines_def)

lemma unlines_Cons [simp]: "unlines (l # ls) = l @ CHR 0x0A # unlines ls"
  by (simp add: unlines_def)

lemma unlines_append [simp]: "unlines (xs @ ys) = unlines xs @ unlines ys"
  by (simp add: unlines_def)

lemma and_then_None [simp]: "and_then (None, out) r = (fst r, out @ snd r)"
  by (cases r) simp

lemma and_then_print [simp]: "and_then (py_print s) r = (fst r, s @ CHR 0x0A # snd r)"
  by (simp add: py_print_def)

lemma and_then_raise [simp]: "and_then (raise e) r = (Some e, [])"
  by (simp add: raise_def)

lemma print_field_Some:
  "map_of kvs key = Some v \<Longrightarrow>
   print_field L label (JObj kvs) key = py_print (label @ py_str L v)"
  by (simp add: print_field_def)

lemma print_field_None:
  "map_of kvs key = None \<Longrightarrow> print_field L label (JObj kvs) key = raise (KeyError key)"
  by (simp add: print_field_def)

lemma print_field_not_dict:
  "\<forall>kvs. obj \<noteq> JObj kvs \<Longrightarrow> print_field L label obj key = raise TypeError"
  by (cases obj) (simp_all add: print_field_def)

lemma print_field_lookup:
  "map_of c1 key = map_of c2 key \<Longrightarrow>
   print_field L label (JObj c1) key = print_field L label (JObj c2) key"
  by (simp add: print_field_def)

subsection \<open>The loop over the services\<close>

lemma for_services_block:
  "has_keys svc (map fst service_fields) \<Longrightarrow>
   for_services L ((name, svc) # rest) =
     (fst (for_services L rest), service_block L (name, svc) @ snd (for_services L rest))"
  by (cases svc) (auto simp: service_fields_def service_block_def print_field_Some)

lemma for_services_append:
  "list_all (\<lambda>e. has_keys (snd e) (map fst service_fields)) its \<Longrightarrow>
   for_services L (its @ rest) =
     (fst (for_services L rest),
      concat (map (service_block L) its) @ snd (for_services L rest))"
proof (induction its)
  case Nil
  then show ?case by simp
next
  case (Cons e its)
  obtain name svc where e: "e = (name, svc)" by (cases e)
  from Cons show ?case unfolding e
    by (simp add: for_services_block del: for_services.simps)
qed

lemma for_services_complete:
  "list_all (\<lambda>e. has_keys (snd e) (map fst service_fields)) its \<Longrightarrow>
   for_services L its = (None, concat (map (service_block L) its))"
  using for_services_append [of its L "[]"] by simp

text \<open>
  An entry without one of its sub-fields ends the loop: the exception names the first
  missing key, and of the entry only the lines before that key are written.
\<close>

lemma for_services_missing:
  assumes "\<not> has_keys (JObj kvs) (map fst service_fields)"
  shows "for_services L ((name, JObj kvs) # rest) =
    (Some (KeyError (fst (service_fields !
        length (takeWhile (\<lambda>f. map_of kvs (fst f) \<noteq> None) service_fields)))),
     unlines ((''  '' @ name @ '':'') #
       map (field_line L (JObj kvs))
         (takeWhile (\<lambda>f. map_of kvs (fst f) \<noteq> None) service_fields)))"
  using assms
  by (auto simp: service_fields_def print_field_Some print_field_None)

lemma first_incomplete:
  assumes "\<exists>e\<in>set its. \<not> has_keys (snd e) ks"
  shows "\<exists>earlier e later. its = earlier @ e # later \<and>
    list_all (\<lambda>e. has_keys (snd e) ks) earlier \<and> \<not> has_keys (snd e) ks"
proof -
  from split_list_first_prop [OF assms]
  obtain earlier e later where "its = earlier @ e # later" "\<not> has_keys (snd e) ks"
    "\<forall>y\<in>set earlier. \<not> \<not> has_keys (snd y) ks"
    by blast
  then show ?thesis
    unfolding list_all_iff by blast
qed

subsection \<open>Sorting the items by name\<close>

lemma sort_key_fst_strict:
  assumes "distinct (map fst its)"
  shows "sorted_wrt (<) (map fst (sort_key fst its))"
proof -
  have "mset (map fst (sort_key fst its)) = mset (map fst its)"
    by simp
  then have "distinct (map fst (sort_key fst its))"
    using assms by (metis mset_eq_imp_distinct_iff)
  then show ?thesis
    by (simp add: strict_sorted_iff)
qed

text \<open>With distinct names, the sorted list does not depend on the order of the items.\<close>

lemma sort_key_fst_perm:
  assumes "mset a = mset b" and "distinct (map fst a)"
  shows "sort_key fst a = sort_key fst b"
proof -
  have set_eq: "set a = set b"
    using assms(1) by (rule mset_eq_setD)
  have "mset (map fst a) = mset (map fst b)"
    using assms(1) by (metis mset_map)
  then have dist_b: "distinct (map fst b)"
    using assms(2) by (metis mset_eq_imp_distinct_iff)
  have inj: "inj_on fst (set a)"
    using assms(2) by (simp add: distinct_map)
  have da: "distinct (map fst (sort_key fst a))"
    using assms(2) inj by (simp add: distinct_map)
  have db: "distinct (map fst (sort_key fst b))"
    using dist_b by (simp add: distinct_map)
  have "map fst (sort_key fst a) = map fst (sort_key fst b)"
  proof (rule sorted_distinct_set_unique)
    show "set (map fst (sort_key fst a)) = set (map fst (sort_key fst b))"
      using set_eq by simp
  qed (simp_all add: da db)
  moreover have "inj_on fst (set (sort_key fst a) \<union> set (sort_key fst b))"
    using inj set_eq by simp
  ultimately show ?thesis
    by (rule map_inj_on)
qed

text \<open>There is one arrangement of given items in which the names strictly ascend.\<close>

lemma ascending_arrangement_unique:
  fixes xs ys :: "(string \<times> json) list"
  assumes "mset xs = mset ys"
    and "sorted_wrt (<) (map fst xs)"
    and "sorted_wrt (<) (map fst ys)"
  shows "xs = ys"
proof -
  have set_eq: "set xs = set ys"
    using assms(1) by (rule mset_eq_setD)
  have sx: "sorted (map fst xs)" "distinct (map fst xs)"
    using assms(2) by (simp_all add: strict_sorted_iff)
  have sy: "sorted (map fst ys)" "distinct (map fst ys)"
    using assms(3) by (simp_all add: strict_sorted_iff)
  have "map fst xs = map fst ys"
  proof (rule sorted_distinct_set_unique)
    show "set (map fst xs) = set (map fst ys)"
      using set_eq by simp
  qed (simp_all add: sx sy)
  moreover have "inj_on fst (set xs \<union> set ys)"
    using sx(2) set_eq by (simp add: distinct_map)
  ultimately show ?thesis
    by (rule map_inj_on)
qed

subsection \<open>The shape of a run\<close>

text \<open>
  When the three header keys are there, the run is the header followed by what the
  \<^verbatim>\<open>services\<close> value leads to.
\<close>

lemma main_header:
  assumes "json_load L inp = Some (JObj ctx)"
    and "has_keys (JObj ctx) (map fst header_fields)"
  shows "main L inp =
    and_then (None, header_text L (JObj ctx))
      (case map_of ctx ''services'' of
         None \<Rightarrow> py_print ''No services configured.''
       | Some services \<Rightarrow>
           if \<not> truthy services then py_print ''No services configured.''
           else and_then (py_print ''Services:'')
             (case items services of Inl e \<Rightarrow> raise e
              | Inr its \<Rightarrow> for_services L (sort_key fst its)))"
  using assms
  by (auto simp: main_def header_fields_def header_text_def print_field_Some
           split: option.splits)

lemma main_services:
  assumes "json_load L inp = Some (JObj ctx)"
    and "has_keys (JObj ctx) (map fst header_fields)"
    and "map_of ctx ''services'' = Some (JObj svcs)"
    and "svcs \<noteq> []"
  shows "main L inp =
    (fst (for_services L (sort_key fst svcs)),
     header_text L (JObj ctx) @ unlines [''Services:''] @
     snd (for_services L (sort_key fst svcs)))"
  using assms(3,4) by (simp add: main_header [OF assms(1,2)])

lemma block_in_output:
  assumes "json_load L inp = Some (JObj ctx)"
    and "has_keys (JObj ctx) (map fst header_fields)"
    and "map_of ctx ''services'' = Some (JObj svcs)"
    and "list_all (\<lambda>e. has_keys (snd e) (map fst service_fields)) svcs"
    and "e \<in> set svcs"
  shows "\<exists>before after. main L inp = (None, before @ service_block L e @ after)"
proof -
  have nonempty: "svcs \<noteq> []"
    using assms(5) by auto
  have all: "list_all (\<lambda>e. has_keys (snd e) (map fst service_fields)) (sort_key fst svcs)"
    using assms(4) by (simp add: list_all_iff)
  have "e \<in> set (sort_key fst svcs)"
    using assms(5) by simp
  then obtain xs ys where split: "sort_key fst svcs = xs @ e # ys"
    by (meson split_list)
  have "for_services L (sort_key fst svcs) =
      (None, concat (map (service_block L) xs) @ service_block L e @
             concat (map (service_block L) ys))"
    unfolding for_services_complete [OF all] by (simp add: split)
  then have "main L inp =
      (None, (header_text L (JObj ctx) @ unlines [''Services:''] @
              concat (map (service_block L) xs))
         @ service_block L e @ concat (map (service_block L) ys))"
    by (simp add: main_services [OF assms(1-3) nonempty])
  then show ?thesis
    by blast
qed

subsection \<open>Decimal digits\<close>

lemma digit_cases:
  assumes "d < (10::nat)"
  shows "d = 0 \<or> d = 1 \<or> d = 2 \<or> d = 3 \<or> d = 4 \<or> d = 5 \<or> d = 6 \<or> d = 7 \<or> d = 8 \<or> d = 9"
  using assms by arith

lemma digit_value_digit: "d < 10 \<Longrightarrow> digit_value (''0123456789'' ! d) = d"
  using digit_cases [of d] by (auto simp: digit_value_def)

lemma digit_is_digit: "d < 10 \<Longrightarrow> is_digit (''0123456789'' ! d)"
  using digit_cases [of d] by (auto simp: is_digit_def)

lemma digit_zero: "d < 10 \<Longrightarrow> ''0123456789'' ! d = CHR ''0'' \<Longrightarrow> d = 0"
  using digit_cases [of d] by auto

lemma show_nat_nonempty: "show_nat n \<noteq> []"
  by (subst show_nat.simps) simp

lemma show_nat_digits: "list_all is_digit (show_nat n)"
proof (induction n rule: show_nat.induct)
  case (1 n)
  show ?case
  proof (cases "n < 10")
    case True
    then show ?thesis
      using digit_is_digit [of n] by (subst show_nat.simps) simp
  next
    case False
    then show ?thesis
      using 1 digit_is_digit [of "n mod 10"] by (subst show_nat.simps) simp
  qed
qed

lemma decimal_value_snoc: "decimal_value (ds @ [c]) = 10 * decimal_value ds + digit_value c"
  by (simp add: decimal_value_def)

lemma decimal_value_show_nat: "decimal_value (show_nat n) = n"
proof (induction n rule: show_nat.induct)
  case (1 n)
  show ?case
  proof (cases "n < 10")
    case True
    then show ?thesis
      using digit_value_digit [of n] by (subst show_nat.simps) (simp add: decimal_value_def)
  next
    case False
    then show ?thesis
      using 1 digit_value_digit [of "n mod 10"]
      by (subst show_nat.simps) (simp add: decimal_value_snoc)
  qed
qed

lemma show_nat_leading_zero: "hd (show_nat n) = CHR ''0'' \<Longrightarrow> n = 0"
proof (induction n rule: show_nat.induct)
  case (1 n)
  show ?case
  proof (cases "n < 10")
    case True
    then show ?thesis
      using "1.prems" digit_zero [of n] by (subst (asm) show_nat.simps) simp
  next
    case False
    then have "hd (show_nat n) = hd (show_nat (n div 10))"
      by (subst show_nat.simps) (simp add: show_nat_nonempty)
    with 1 False have "n div 10 = 0" by simp
    with False show ?thesis by simp
  qed
qed

lemma show_nat_zero: "show_nat 0 = ''0''"
  by (simp add: show_nat.simps)

text \<open>\<^verbatim>\<open>str\<close> of an integer is its natural decimal representation.\<close>

lemma show_int_decimal: "is_decimal_of (show_int i) i"
proof -
  have "hd (show_nat n) = CHR ''0'' \<longrightarrow> show_nat n = ''0''" for n
    using show_nat_leading_zero [of n] show_nat_zero by auto
  then show ?thesis
    by (auto simp: is_decimal_of_def show_int_def show_nat_nonempty show_nat_digits
        decimal_value_show_nat)
qed

subsection \<open>What a run depends on\<close>

text \<open>Of the library, rendering uses only \<^verbatim>\<open>repr\<close> of strings.\<close>

lemma py_repr_cong:
  assumes "repr_str L1 = repr_str L2"
  shows "py_repr L1 v = py_repr L2 v"
proof (induction v)
  case (JArr xs)
  then have elems: "map (py_repr L1) xs = map (py_repr L2) xs"
    by (intro map_cong [OF refl]) simp
  show ?case by (simp only: py_repr.simps elems)
next
  case (JObj kvs)
  have elems: "map (\<lambda>kv. repr_str L1 (fst kv) @ '': '' @ py_repr L1 (snd kv)) kvs =
        map (\<lambda>kv. repr_str L2 (fst kv) @ '': '' @ py_repr L2 (snd kv)) kvs"
  proof (rule map_cong [OF refl])
    fix kv assume mem: "kv \<in> set kvs"
    have "snd kv \<in> Basic_BNFs.snds kv"
      by (cases kv) simp
    with mem have "py_repr L1 (snd kv) = py_repr L2 (snd kv)"
      by (rule JObj.IH)
    then show "repr_str L1 (fst kv) @ '': '' @ py_repr L1 (snd kv) =
               repr_str L2 (fst kv) @ '': '' @ py_repr L2 (snd kv)"
      using assms by simp
  qed
  show ?case by (simp only: py_repr.simps elems)
qed (simp_all add: assms)

lemma py_str_cong: "repr_str L1 = repr_str L2 \<Longrightarrow> py_str L1 v = py_str L2 v"
  using py_repr_cong [of L1 L2 v] by (cases v) simp_all

lemma print_field_cong:
  "repr_str L1 = repr_str L2 \<Longrightarrow> print_field L1 label obj key = print_field L2 label obj key"
  using py_str_cong [of L1 L2] by (simp add: print_field_def split: sum.splits)

lemma for_services_cong:
  assumes "repr_str L1 = repr_str L2"
  shows "for_services L1 its = for_services L2 its"
proof (induction its)
  case Nil
  show ?case by simp
next
  case (Cons e its)
  obtain name svc where e: "e = (name, svc)" by (cases e)
  show ?case
    unfolding e for_services.simps Cons.IH
    by (simp only: print_field_cong [OF assms])
qed

lemma services_part_agree:
  assumes "repr_str L1 = repr_str L2" and "reordered v w"
  shows "(if \<not> truthy v then py_print ''No services configured.''
          else and_then (py_print ''Services:'')
            (case items v of Inl e \<Rightarrow> raise e
             | Inr its \<Rightarrow> for_services L1 (sort_key fst its))) =
         (if \<not> truthy w then py_print ''No services configured.''
          else and_then (py_print ''Services:'')
            (case items w of Inl e \<Rightarrow> raise e
             | Inr its \<Rightarrow> for_services L2 (sort_key fst its)))"
proof (cases "v = w")
  case True
  then show ?thesis
    by (simp add: for_services_cong [OF assms(1)] split: sum.splits)
next
  case False
  with assms(2) obtain a b where vw: "v = JObj a" "w = JObj b"
    and perm: "distinct (map fst a)" "mset a = mset b"
    by (cases v; cases w) auto
  have "sort_key fst a = sort_key fst b"
    using perm by (simp add: sort_key_fst_perm)
  moreover have "a = [] \<longleftrightarrow> b = []"
    using perm(2) by (metis mset_zero_iff)
  ultimately show ?thesis
    by (simp add: vw for_services_cong [OF assms(1)])
qed

text \<open>
  A run is determined by \<^verbatim>\<open>repr\<close> of strings, the values of the three header keys and
  the value of \<^verbatim>\<open>services\<close>, the last up to the order of its items.
\<close>

lemma main_agree:
  assumes "json_load L1 i1 = Some (JObj c1)"
    and "json_load L2 i2 = Some (JObj c2)"
    and "repr_str L1 = repr_str L2"
    and "\<forall>k\<in>set (map fst header_fields). map_of c1 k = map_of c2 k"
    and "rel_option reordered (map_of c1 ''services'') (map_of c2 ''services'')"
  shows "main L1 i1 = main L2 i2"
proof -
  have field: "print_field L1 label (JObj c1) k = print_field L2 label (JObj c2) k"
    if "k \<in> set (map fst header_fields)" for label k
  proof -
    have "map_of c1 k = map_of c2 k"
      using assms(4) that by blast
    then have "print_field L1 label (JObj c1) k = print_field L1 label (JObj c2) k"
      by (rule print_field_lookup)
    then show ?thesis
      by (simp only: print_field_cong [OF assms(3)])
  qed
  have part: "(case dict_get (JObj c1) ''services'' (JObj []) of
            Inl e \<Rightarrow> raise e
          | Inr services \<Rightarrow>
              if \<not> truthy services then py_print ''No services configured.''
              else
                and_then (py_print ''Services:'')
               (case items services of
                  Inl e \<Rightarrow> raise e
                | Inr its \<Rightarrow> for_services L1 (sort_key fst its))) =
        (case dict_get (JObj c2) ''services'' (JObj []) of
            Inl e \<Rightarrow> raise e
          | Inr services \<Rightarrow>
              if \<not> truthy services then py_print ''No services configured.''
              else
                and_then (py_print ''Services:'')
               (case items services of
                  Inl e \<Rightarrow> raise e
                | Inr its \<Rightarrow> for_services L2 (sort_key fst its)))"
  proof (cases "map_of c1 ''services''")
    case None
    with assms(5) have "map_of c2 ''services'' = None" by simp
    with None show ?thesis by simp
  next
    case (Some v)
    with assms(5) obtain w where w: "map_of c2 ''services'' = Some w" "reordered v w"
      by (cases "map_of c2 ''services''") auto
    show ?thesis
      using services_part_agree [OF assms(3) w(2)] by (simp add: Some w(1))
  qed
  show ?thesis
    unfolding main_def assms(1,2) option.case part
    by (simp add: field header_fields_def)
qed

text \<open>Without a decoded object there is no output.\<close>

lemma main_without_document:
  "(json_load L inp = None \<longrightarrow> main L inp = (Some JSONDecodeError, [])) \<and>
   (\<forall>v. json_load L inp = Some v \<and> (\<forall>kvs. v \<noteq> JObj kvs) \<longrightarrow>
        main L inp = (Some TypeError, []))"
  by (auto simp: main_def print_field_not_dict) (simp add: raise_def)

subsection \<open>The decoder\<close>

text \<open>What a scan leaves is a proper suffix of the text it started from.\<close>

lemma skip_ws_le: "length (skip_ws s) \<le> length s"
  by (simp add: skip_ws_def length_dropWhile_le)

lemma skip_ws_Cons: "skip_ws s = d # r \<Longrightarrow> length r < length s"
  using skip_ws_le [of s] by simp

lemma scan_raw_shorter: "scan_raw s = Some (raw, r) \<Longrightarrow> length r < length s"
  by (induction s arbitrary: raw rule: scan_raw.induct)
     (fastforce split: if_splits list.splits)+

lemma scanstring_shorter: "scanstring C s = Some (t, r) \<Longrightarrow> length r < length s"
  by (auto simp: scanstring_def dest: scan_raw_shorter split: option.splits)

lemma suffix_skip_ws: "suffix (skip_ws s) s"
  by (simp add: skip_ws_def suffix_dropWhile)

lemma skip_ws_Cons_suffix: "skip_ws s = d # r \<Longrightarrow> suffix r s"
  using suffix_skip_ws [of s] by (metis suffix_ConsD)

lemma scan_raw_suffix: "scan_raw s = Some (raw, r) \<Longrightarrow> suffix r s"
proof (induction s arbitrary: raw rule: scan_raw.induct)
  case 1
  then show ?case by simp
next
  case (2 c cs)
  then show ?case
    by (fastforce split: if_splits list.splits intro: suffix_ConsI)
qed

lemma scanstring_suffix: "scanstring C s = Some (t, r) \<Longrightarrow> suffix r s"
  by (auto simp: scanstring_def dest: scan_raw_suffix split: option.splits)

lemma match_frac_rest: "match_frac s = (f, r) \<Longrightarrow> suffix r s"
  by (auto simp: match_frac_def suffix_dropWhile intro!: suffix_ConsI
      split: list.splits if_splits)

lemma suffix_dropWhile_drop_Cons: "suffix (dropWhile P (drop n r)) (e # r)"
  by (meson suffix_ConsI suffix_drop suffix_dropWhile suffix_order.trans)

lemma match_exp_rest: "match_exp s = (e, r) \<Longrightarrow> suffix r s"
  by (auto simp: match_exp_def Let_def split: list.splits if_splits
      intro!: suffix_ConsI suffix_dropWhile)

lemma match_number_rest:
  assumes "match_number s = Some (i, f, e, r)"
  shows "suffix r s \<and> length r < length s"
proof -
  define sign where "sign = (case s of [] \<Rightarrow> [] | g # _ \<Rightarrow> if g = CHR ''-'' then [g] else [])"
  define s1 where "s1 = drop (length sign) s"
  from assms obtain d ds where s1: "s1 = d # ds"
    unfolding match_number_def sign_def [symmetric] Let_def s1_def [symmetric]
    by (auto split: list.splits if_splits)
  define digits where "digits = (if d = CHR ''0'' then [d] else d # takeWhile is_dec ds)"
  define s2 where "s2 = drop (length digits) s1"
  from assms s1 have r: "r = snd (match_exp (snd (match_frac s2)))"
    unfolding match_number_def sign_def [symmetric] Let_def s1_def [symmetric]
    by (auto simp: digits_def s2_def split: list.splits if_splits prod.splits)
  have "suffix r (snd (match_frac s2))"
    unfolding r by (metis match_exp_rest prod.collapse)
  moreover have "suffix (snd (match_frac s2)) s2"
    by (metis match_frac_rest prod.collapse)
  ultimately have "suffix r s2"
    by (rule suffix_order.trans)
  moreover have "suffix s2 ds"
    unfolding s2_def s1 digits_def by (auto simp: suffix_drop suffix_dropWhile
        simp flip: dropWhile_eq_drop)
  ultimately have "suffix r ds"
    by (rule suffix_order.trans)
  moreover have "suffix s1 s"
    unfolding s1_def by (rule suffix_drop)
  ultimately have "suffix r s" "length r \<le> length ds" "length s1 \<le> length s"
    using s1 by (auto intro: suffix_order.trans suffix_ConsI dest: suffix_length_le)
  then show ?thesis
    using s1 by simp
qed


lemma take_eq_drop_shorter:
  assumes "take n s = t" and "length t = n" and "0 < n"
  shows "suffix (drop n s) s \<and> length (drop n s) < length s"
proof -
  have "n \<le> length s"
    using assms(1,2) by (metis length_take min.cobounded1)
  then show ?thesis
    using assms(3) by (simp add: suffix_drop)
qed

lemma scan_constant_rest:
  "scan_constant a s = Some (v, r) \<Longrightarrow> suffix r s \<and> length r < length s"
  using take_eq_drop_shorter [of 3 s "''NaN''"] take_eq_drop_shorter [of 8 s "''Infinity''"]
    take_eq_drop_shorter [of 9 s "''-Infinity''"]
  by (auto simp: scan_constant_def split: if_splits)

lemma scan_atom_rest:
  "scan_atom a C s = Some (v, r) \<Longrightarrow> suffix r s \<and> length r < length s"
  using take_eq_drop_shorter [of 4 s "''null''"] take_eq_drop_shorter [of 4 s "''true''"]
    take_eq_drop_shorter [of 5 s "''false''"]
  by (auto simp: scan_atom_def split: if_splits option.splits
      dest: match_number_rest scan_constant_rest)

lemma scan_rest:
  "scan_once a C s = Some (v, r) \<Longrightarrow> suffix r s \<and> length r < length s"
  "parse_array a C s vs = Some (v, r) \<Longrightarrow> suffix r s \<and> length r < length s"
  "parse_object a C s kvs = Some (v, r) \<Longrightarrow> suffix r s \<and> length r < length s"
proof (induction a C s and a C s vs and a C s kvs arbitrary: v r and v r and v r
    rule: scan_once_parse_array_parse_object.induct)
  case (1 a C)
  then show ?case by simp
next
  case (2 a C c cs)
  show ?case
  proof (cases "c = CHR 0x22")
    case True
    with "2.prems" obtain t where "scanstring C cs = Some (t, r)"
      by (auto simp: scan_once.simps(2))
    then show ?thesis
      using scanstring_suffix scanstring_shorter by (fastforce intro: suffix_ConsI)
  next
    case not_string: False
    show ?thesis
    proof (cases "c = CHR ''{''")
      case True
      with "2.prems" obtain d r0 where ws: "skip_ws cs = d # r0"
        and res: "if d = CHR ''}'' then r = r0 else parse_object a C (d # r0) [] = Some (v, r)"
        by (auto simp: scan_once.simps(2) split: list.splits if_splits)
      have "suffix r (d # r0) \<and> length r \<le> length (d # r0)"
      proof (cases "d = CHR ''}''")
        case True
        with res show ?thesis by (simp add: suffix_ConsI)
      next
        case False
        with res "2.IH"(1) [OF not_string True ws False] show ?thesis by simp
      qed
      moreover have "suffix (d # r0) cs" "length (d # r0) \<le> length cs"
        using ws suffix_skip_ws [of cs] skip_ws_le [of cs] by simp_all
      ultimately show ?thesis
        by (auto intro: suffix_ConsI suffix_order.trans)
    next
      case not_object: False
      show ?thesis
      proof (cases "c = CHR ''[''")
        case True
        with "2.prems" not_string not_object obtain d r0 where ws: "skip_ws cs = d # r0"
          and res: "if d = CHR '']'' then r = r0 else parse_array a C (d # r0) [] = Some (v, r)"
          by (auto simp: scan_once.simps(2) split: list.splits if_splits)
        have "suffix r (d # r0) \<and> length r \<le> length (d # r0)"
        proof (cases "d = CHR '']''")
          case True
          with res show ?thesis by (simp add: suffix_ConsI)
        next
          case False
          with res "2.IH"(2) [OF not_string not_object True ws False] show ?thesis by simp
        qed
        moreover have "suffix (d # r0) cs" "length (d # r0) \<le> length cs"
          using ws suffix_skip_ws [of cs] skip_ws_le [of cs] by simp_all
        ultimately show ?thesis
          by (auto intro: suffix_ConsI suffix_order.trans)
      next
        case False
        with "2.prems" not_string not_object have "scan_atom a C (c # cs) = Some (v, r)"
          by (simp add: scan_once.simps(2))
        then show ?thesis by (rule scan_atom_rest)
      qed
    qed
  qed
next
  case (3 a C s vs)
  from "3.prems" obtain v1 r1 d r2 where first: "scan_once a C s = Some (v1, r1)"
    and ws: "skip_ws r1 = d # r2"
    and res: "if d = CHR '']'' then r = r2
              else d = CHR '','' \<and> length r2 < length s \<and>
                   parse_array a C (skip_ws r2) (vs @ [v1]) = Some (v, r)"
    by (subst (asm) parse_array.simps) (auto split: option.splits list.splits if_splits)
  have r1: "suffix r1 s" "length r1 < length s"
    using "3.IH"(1) [OF first] by simp_all
  have r2: "suffix r2 r1" "length r2 < length r1"
    using ws skip_ws_Cons_suffix skip_ws_Cons by blast+
  show ?case
  proof (cases "d = CHR '']''")
    case True
    with res r1 r2 show ?thesis
      by (auto intro: suffix_order.trans)
  next
    case False
    with res have comma: "d = CHR '',''" "length r2 < length s"
      and rest: "parse_array a C (skip_ws r2) (vs @ [v1]) = Some (v, r)"
      by simp_all
    have "suffix r (skip_ws r2) \<and> length r < length (skip_ws r2)"
      using "3.IH"(2) [OF first refl ws False _ rest] comma by simp
    moreover have "suffix (skip_ws r2) r2" "length (skip_ws r2) \<le> length r2"
      by (simp_all add: suffix_skip_ws skip_ws_le)
    ultimately show ?thesis
      using r1 r2 by (auto intro: suffix_order.trans)
  qed
next
  case (4 a C s kvs)
  from "4.prems" obtain cs key r1 r2 v1 r3 e r4
    where s: "s = CHR 0x22 # cs"
      and key: "scanstring C cs = Some (key, r1)"
      and colon: "skip_ws r1 = CHR '':'' # r2"
      and val: "scan_once a C (skip_ws r2) = Some (v1, r3)"
      and ws: "skip_ws r3 = e # r4"
      and res: "if e = CHR ''}'' then r = r4
                else e = CHR '','' \<and> length r4 < length s \<and>
                     parse_object a C (skip_ws r4) (dict_set kvs key v1) = Some (v, r)"
    by (subst (asm) parse_object.simps)
       (auto split: option.splits list.splits if_splits)
  have r1: "suffix r1 s" "length r1 < length s"
    using scanstring_suffix [OF key] scanstring_shorter [OF key] s
    by (auto intro: suffix_ConsI)
  have r2: "suffix r2 r1" "length r2 < length r1"
    using colon skip_ws_Cons_suffix skip_ws_Cons by blast+
  have "suffix r3 (skip_ws r2) \<and> length r3 < length (skip_ws r2)"
    using "4.IH"(1) [of "CHR 0x22" cs "(key, r1)" key r1 "CHR '':''" r2 v1 r3] s key colon val
    by simp
  moreover have "suffix (skip_ws r2) r2" "length (skip_ws r2) \<le> length r2"
    by (simp_all add: suffix_skip_ws skip_ws_le)
  ultimately have r3: "suffix r3 s" "length r3 < length s"
    using r1 r2 by (auto intro: suffix_order.trans)
  have r4: "suffix r4 r3" "length r4 < length r3"
    using ws skip_ws_Cons_suffix skip_ws_Cons by blast+
  show ?case
  proof (cases "e = CHR ''}''")
    case True
    with res r3 r4 show ?thesis
      by (auto intro: suffix_order.trans)
  next
    case False
    with res have comma: "e = CHR '',''" "length r4 < length s"
      and rest: "parse_object a C (skip_ws r4) (dict_set kvs key v1) = Some (v, r)"
      by simp_all
    have "suffix r (skip_ws r4) \<and> length r < length (skip_ws r4)"
      using "4.IH"(2) [of "CHR 0x22" cs "(key, r1)" key r1 "CHR '':''" r2 "(v1, r3)" v1 r3 e r4 v r]
        s key colon val ws False comma rest
      by simp
    moreover have "suffix (skip_ws r4) r4" "length (skip_ws r4) \<le> length r4"
      by (simp_all add: suffix_skip_ws skip_ws_le)
    ultimately show ?thesis
      using r3 r4 by (auto intro: suffix_order.trans)
  qed
qed


text \<open>The guards on the lengths never fail.\<close>

lemma parse_array_unguarded:
  "parse_array a C s vs =
     (case scan_once a C s of
        None \<Rightarrow> None
      | Some (v, r) \<Rightarrow>
          (case skip_ws r of
             [] \<Rightarrow> None
           | d # r' \<Rightarrow>
               if d = CHR '']'' then Some (JArr (vs @ [v]), r')
               else if d = CHR '','' then parse_array a C (skip_ws r') (vs @ [v])
               else None))"
proof -
  have "length r' < length s" if "scan_once a C s = Some (v, r)" "skip_ws r = d # r'" for v r d r'
    using scan_rest(1) [OF that(1)] skip_ws_Cons [OF that(2)] by simp
  then show ?thesis
    by (subst parse_array.simps) (auto split: option.splits list.splits)
qed

lemma parse_object_unguarded:
  "parse_object a C s kvs =
     (case s of
        [] \<Rightarrow> None
      | q # cs \<Rightarrow>
          if q \<noteq> CHR 0x22 then None
          else
            (case scanstring C cs of
               None \<Rightarrow> None
             | Some (key, r1) \<Rightarrow>
                 (case skip_ws r1 of
                    [] \<Rightarrow> None
                  | d # r2 \<Rightarrow>
                      if d \<noteq> CHR '':'' then None
                      else
                        (case scan_once a C (skip_ws r2) of
                           None \<Rightarrow> None
                         | Some (v, r3) \<Rightarrow>
                             (case skip_ws r3 of
                                [] \<Rightarrow> None
                              | e # r4 \<Rightarrow>
                                  if e = CHR ''}'' then Some (JObj (dict_set kvs key v), r4)
                                  else if e = CHR '','' then
                                    parse_object a C (skip_ws r4) (dict_set kvs key v)
                                  else None)))))"
proof -
  have "length r4 < length (q # cs)"
    if "scanstring C cs = Some (key, r1)" "skip_ws r1 = d # r2"
      "scan_once a C (skip_ws r2) = Some (v, r3)" "skip_ws r3 = e # r4"
    for q cs key r1 d r2 v r3 e r4
    using scanstring_shorter [OF that(1)] skip_ws_Cons [OF that(2)] skip_ws_le [of r2]
      scan_rest(1) [OF that(3)] skip_ws_Cons [OF that(4)]
    by simp
  then show ?thesis
    by (subst parse_object.simps) (auto split: option.splits list.splits)
qed

lemma sublist_of_suffix: "sublist t r \<Longrightarrow> suffix r s \<Longrightarrow> sublist t s"
proof -
  assume "sublist t r" "suffix r s"
  then obtain ps ss zs where "r = ps @ t @ ss" "s = zs @ r"
    by (auto simp: sublist_def suffix_def)
  then have "s = (zs @ ps) @ t @ ss" by simp
  then show ?thesis unfolding sublist_def by blast
qed

lemma no_constants_suffix: "suffix r s \<Longrightarrow> no_constants s \<Longrightarrow> no_constants r"
  unfolding no_constants_def using sublist_of_suffix by blast

lemma take_sublist: "take n s = t \<Longrightarrow> sublist t s"
  by (metis prefix_imp_sublist take_is_prefix)

lemma scan_constant_none: "no_constants s \<Longrightarrow> scan_constant a s = None"
proof -
  assume nc: "no_constants s"
  have "sublist ''Infinity'' s" if "take 9 s = ''-Infinity''"
  proof -
    have "s = ''-Infinity'' @ drop 9 s"
      using that by (metis append_take_drop_id)
    then have "s = ''-'' @ ''Infinity'' @ drop 9 s"
      by simp
    then show ?thesis
      unfolding sublist_def by blast
  qed
  with nc show ?thesis
    using take_sublist [of 3 s "''NaN''"] take_sublist [of 8 s "''Infinity''"]
    by (auto simp: scan_constant_def no_constants_def)
qed

lemma scan_atom_no_constants: "no_constants s \<Longrightarrow> scan_atom a C s = scan_atom False C s"
  by (simp add: scan_atom_def scan_constant_none split: option.splits)

text \<open>
  On a text without the three literals the flag makes no difference: whatever the
  decoder of \<^verbatim>\<open>main\<close> accepts there is valid JSON.
\<close>

lemma scan_no_constants:
  "no_constants s \<Longrightarrow> scan_once a C s = scan_once False C s"
  "no_constants s \<Longrightarrow> parse_array a C s vs = parse_array False C s vs"
  "no_constants s \<Longrightarrow> parse_object a C s kvs = parse_object False C s kvs"
proof (induction a C s and a C s vs and a C s kvs
    rule: scan_once_parse_array_parse_object.induct)
  case (1 a C)
  show ?case by simp
next
  case (2 a C c cs)
  have inner: "no_constants (d # r)" if "skip_ws cs = d # r" for d r
  proof -
    have "suffix (d # r) (c # cs)"
      using suffix_skip_ws [of cs] that by (simp add: suffix_ConsI)
    then show ?thesis
      using "2.prems" by (rule no_constants_suffix)
  qed
  have obj: "parse_object a C (d # r) [] = parse_object False C (d # r) []"
    if "c \<noteq> CHR 0x22" "c = CHR ''{''" "skip_ws cs = d # r" "d \<noteq> CHR ''}''" for d r
    using "2.IH"(1) [OF that inner [OF that(3)]] .
  have arr: "parse_array a C (d # r) [] = parse_array False C (d # r) []"
    if "c \<noteq> CHR 0x22" "c \<noteq> CHR ''{''" "c = CHR ''[''" "skip_ws cs = d # r" "d \<noteq> CHR '']''"
    for d r
    using "2.IH"(2) [OF that inner [OF that(4)]] .
  show ?case
    using obj arr scan_atom_no_constants [OF "2.prems", of a C]
    by (auto simp: scan_once.simps(2) split: list.splits)
next
  case (3 a C s vs)
  have first: "scan_once a C s = scan_once False C s"
    using "3.IH"(1) [OF "3.prems"] .
  have rest: "parse_array a C (skip_ws r') (vs @ [v]) = parse_array False C (skip_ws r') (vs @ [v])"
    if "scan_once a C s = Some (v, r)" "skip_ws r = d # r'" "d \<noteq> CHR '']''" "d = CHR '',''"
    for v r d r'
  proof -
    have len: "length r' < length s"
      using scan_rest(1) [OF that(1)] skip_ws_Cons [OF that(2)] by simp
    have "suffix (skip_ws r') s"
      using scan_rest(1) [OF that(1)] skip_ws_Cons_suffix [OF that(2)] suffix_skip_ws [of r']
      by (meson suffix_order.trans)
    then have "no_constants (skip_ws r')"
      using "3.prems" by (rule no_constants_suffix)
    with "3.IH"(2) [OF that(1) refl that(2,3)] that(4) len show ?thesis
      by simp
  qed
  show ?case
    apply (subst parse_array_unguarded [of a])
    apply (subst parse_array_unguarded [of False])
    using rest first by (auto split: option.splits list.splits)
next
  case (4 a C s kvs)
  have val: "scan_once a C (skip_ws r2) = scan_once False C (skip_ws r2)"
    if "s = CHR 0x22 # cs" "scanstring C cs = Some (key, r1)" "skip_ws r1 = CHR '':'' # r2"
    for cs key r1 r2
  proof -
    have "suffix (skip_ws r2) s"
      using scanstring_suffix [OF that(2)] skip_ws_Cons_suffix [OF that(3)]
        suffix_skip_ws [of r2] that(1)
      by (meson suffix_ConsI suffix_order.trans)
    then have "no_constants (skip_ws r2)"
      using "4.prems" by (rule no_constants_suffix)
    with "4.IH"(1) [of "CHR 0x22" cs "(key, r1)" key r1 "CHR '':''" r2] that show ?thesis
      by simp
  qed
  have rest: "parse_object a C (skip_ws r4) (dict_set kvs key v) =
              parse_object False C (skip_ws r4) (dict_set kvs key v)"
    if "s = CHR 0x22 # cs" "scanstring C cs = Some (key, r1)" "skip_ws r1 = CHR '':'' # r2"
      "scan_once a C (skip_ws r2) = Some (v, r3)" "skip_ws r3 = e # r4" "e \<noteq> CHR ''}''"
      "e = CHR '',''"
    for cs key r1 r2 v r3 e r4
  proof -
    have r3: "suffix r3 s" "length r3 < length s"
      using scanstring_suffix [OF that(2)] skip_ws_Cons_suffix [OF that(3)]
        suffix_skip_ws [of r2] scan_rest(1) [OF that(4)] that(1)
        scanstring_shorter [OF that(2)] skip_ws_Cons [OF that(3)] skip_ws_le [of r2]
      by (auto intro: suffix_order.trans suffix_ConsI)
    have len: "length r4 < length s"
      using r3(2) skip_ws_Cons [OF that(5)] by simp
    have "suffix (skip_ws r4) s"
      using r3(1) skip_ws_Cons_suffix [OF that(5)] suffix_skip_ws [of r4]
      by (meson suffix_order.trans)
    then have "no_constants (skip_ws r4)"
      using "4.prems" by (rule no_constants_suffix)
    with "4.IH"(2) [of "CHR 0x22" cs "(key, r1)" key r1 "CHR '':''" r2 "(v, r3)" v r3 e r4]
      that len show ?thesis
      by simp
  qed
  show ?case
    apply (subst parse_object_unguarded [of a])
    apply (subst parse_object_unguarded [of False])
    using rest val by (auto split: option.splits list.splits)
qed

lemma json_loads_no_constants:
  "no_constants s \<Longrightarrow> json_loads a C s = json_loads False C s"
proof -
  assume "no_constants s"
  then have "no_constants (skip_ws s)"
    using suffix_skip_ws by (rule no_constants_suffix [rotated])
  then show ?thesis
    by (simp add: json_loads_def scan_no_constants(1) [of _ a])
qed

lemmas scan_simps = scan_once.simps(2) parse_array_unguarded parse_object_unguarded
  scanstring_def string_value_def scan_atom_def scan_constant_def match_number_def
  match_frac_def match_exp_def skip_ws_def is_ws_def is_dec_def parse_int_def
  json_loads_def decimal_value_def digit_value_def

subsection \<open>The natural text of a value\<close>

text \<open>\<^verbatim>\<open>repr\<close> and \<^verbatim>\<open>str\<close> as \<open>main\<close> computes them give the natural text, and nothing else is.\<close>

lemma join_elements:
  "(\<And>x. x \<in> set xs \<Longrightarrow> repr_text L x (py_repr L x)) \<Longrightarrow>
   elements_text L xs (join '', '' (map (py_repr L) xs))"
proof (induction xs rule: induct_list012)
  case 1
  show ?case by (simp add: no_element)
next
  case (2 x)
  then show ?case by (simp add: last_element)
next
  case (3 x y ys)
  have head: "repr_text L x (py_repr L x)"
    using "3.prems" [of x] by simp
  have tail: "elements_text L (y # ys) (join '', '' (map (py_repr L) (y # ys)))"
    by (rule "3.IH"(2)) (use "3.prems" in auto)
  from more_elements [OF head tail] show ?case
    by simp
qed

lemma join_items:
  "(\<And>k v. (k, v) \<in> set kvs \<Longrightarrow> repr_text L v (py_repr L v)) \<Longrightarrow>
   items_text L kvs
     (join '', '' (map (\<lambda>kv. repr_str L (fst kv) @ '': '' @ py_repr L (snd kv)) kvs))"
proof (induction kvs rule: induct_list012)
  case 1
  show ?case by (simp add: no_item)
next
  case (2 kv)
  obtain k v where kv: "kv = (k, v)" by (cases kv)
  from 2 show ?case unfolding kv
    using last_item [of L v "py_repr L v" k] by simp
next
  case (3 kv kv' kvs)
  obtain k v where kv: "kv = (k, v)" by (cases kv)
  have head: "repr_text L v (py_repr L v)"
    using "3.prems" [of k v] kv by simp
  have tail: "items_text L (kv' # kvs)
     (join '', '' (map (\<lambda>kv. repr_str L (fst kv) @ '': '' @ py_repr L (snd kv)) (kv' # kvs)))"
    by (rule "3.IH"(2)) (use "3.prems" in auto)
  from more_items [OF head tail, of k] show ?case
    by (simp add: kv)
qed

lemma py_repr_text: "repr_text L v (py_repr L v)"
proof (induction v)
  case (JInt i)
  show ?case by (simp add: repr_int show_int_decimal)
next
  case (JBool b)
  show ?case by (cases b) (simp_all add: repr_true repr_false)
next
  case (JArr xs)
  then show ?case
    using repr_list [OF join_elements, of xs L] by simp
next
  case (JObj kvs)
  have "repr_text L v (py_repr L v)" if "(k, v) \<in> set kvs" for k v
    using JObj [of "(k, v)" v] that by simp
  then show ?case
    using repr_dict [OF join_items, of kvs L] by simp
qed (simp_all add: repr_null repr_float repr_string)

lemma py_str_text: "str_text L v (py_str L v)"
  using py_repr_text [of L v] by (cases v) (simp_all add: str_text_def)


lemma is_digit_char: "is_digit c \<Longrightarrow> digit_value c < 10 \<and> ''0123456789'' ! digit_value c = c"
  by (auto simp: is_digit_def digit_value_def)

lemma canonical_digits:
  "ds \<noteq> [] \<Longrightarrow> list_all is_digit ds \<Longrightarrow> (hd ds = CHR ''0'' \<longrightarrow> ds = ''0'') \<Longrightarrow>
   ds = show_nat (decimal_value ds)"
proof (induction ds rule: rev_induct)
  case Nil
  then show ?case by simp
next
  case (snoc c init)
  have c: "digit_value c < 10" "''0123456789'' ! digit_value c = c"
    using snoc.prems(2) is_digit_char [of c] by simp_all
  show ?case
  proof (cases "init = []")
    case True
    then show ?thesis
      using c by (simp add: decimal_value_def show_nat.simps)
  next
    case False
    then have hd: "hd init \<noteq> CHR ''0''"
      using snoc.prems(3) by auto
    have init: "init = show_nat (decimal_value init)"
      using snoc.IH False snoc.prems(2) hd by simp
    have "decimal_value init \<noteq> 0"
    proof
      assume "decimal_value init = 0"
      with init have "init = ''0''" by (simp add: show_nat_zero)
      with hd show False by simp
    qed
    then have big: "\<not> 10 * decimal_value init + digit_value c < 10"
      by simp
    have "show_nat (10 * decimal_value init + digit_value c) =
          show_nat (decimal_value init) @ [c]"
      using c big by (subst show_nat.simps) simp
    with init show ?thesis
      by (simp add: decimal_value_snoc)
  qed
qed

lemma is_decimal_of_show_int: "is_decimal_of s i \<Longrightarrow> s = show_int i"
proof -
  assume d: "is_decimal_of s i"
  define ds where "ds = (if i < 0 then tl s else s)"
  from d have canon: "ds \<noteq> []" "list_all is_digit ds" "hd ds = CHR ''0'' \<longrightarrow> ds = ''0''"
    and val: "int (decimal_value ds) = \<bar>i\<bar>"
    and sign: "i < 0 \<longrightarrow> s \<noteq> [] \<and> hd s = CHR ''-''"
    unfolding is_decimal_of_def Let_def ds_def by simp_all
  have ds: "ds = show_nat (decimal_value ds)"
    using canon by (rule canonical_digits)
  show ?thesis
  proof (cases "i < 0")
    case True
    with val have "decimal_value ds = nat (- i)" by simp
    with ds have "tl s = show_nat (nat (- i))"
      using True by (simp add: ds_def)
    moreover have "s = CHR ''-'' # tl s"
      using sign True by (cases s) simp_all
    ultimately show ?thesis
      using True by (simp add: show_int_def)
  next
    case False
    with val have "decimal_value ds = nat i" by simp
    with ds show ?thesis
      using False by (simp add: ds_def show_int_def)
  qed
qed

lemma repr_text_unique:
  "repr_text L v t \<Longrightarrow> t = py_repr L v"
  "elements_text L xs t \<Longrightarrow> t = join '', '' (map (py_repr L) xs)"
  "items_text L kvs t \<Longrightarrow>
     t = join '', '' (map (\<lambda>kv. repr_str L (fst kv) @ '': '' @ py_repr L (snd kv)) kvs)"
  by (induction rule: repr_text_elements_text_items_text.inducts)
     (simp_all add: is_decimal_of_show_int)

lemma str_text_iff: "str_text L v t \<longleftrightarrow> t = py_str L v"
  using repr_text_unique(1) [of L v t] py_repr_text [of L v]
  by (cases v) (auto simp: str_text_def)

subsection \<open>The examples\<close>

lemmas example_defs = reading_def quoted_def acme_doc_def acme_def web_def api_def db_def odd_def

lemma load_reading: "json_load (reading [(inp, doc)]) inp = Some doc"
  by (simp add: reading_def)

lemma acme_doc_keys: "has_keys (JObj (acme @ [(''services'', v)])) (map fst header_fields)"
  by (simp add: acme_def header_fields_def)

lemma acme_doc_services: "map_of (acme @ [(''services'', v)]) ''services'' = Some v"
  by (simp add: acme_def)

lemma acme_header:
  "header_text L (JObj (acme @ [(''services'', v)])) =
     unlines [''Project: acme'', ''Hash: abc123'', ''Domain: acme.dev'', []]"
  by (simp add: header_text_def header_fields_def acme_def)

section \<open>The claims\<close>

text \<open>
  In what follows a document is the dict \<open>JObj ctx\<close> that the decoder returns for the
  text on standard input. It has its three header keys when
  \<open>has_keys (JObj ctx) (map fst header_fields)\<close> holds, and a service entry is complete
  when it is a dict with the three keys of \<open>service_fields\<close>.
\<close>

subsection \<open>C1: the services appear in ascending order of their names\<close>

text \<open>
  C1. For every document with its header keys whose \<^verbatim>\<open>services\<close> is a non-empty mapping
  of complete entries, the run completes, and after the header and the line
  \<^verbatim>\<open>Services:\<close> the output consists of the blocks of exactly the given services,
  arranged so that their names are strictly ascending in the lexicographic order of
  strings. The order of the items in the input plays no part: the arrangement is
  fixed by the services alone (\<open>ascending_arrangement_unique\<close>).
\<close>

theorem services_in_ascending_order:
  assumes "json_load L inp = Some (JObj ctx)"
    and "has_keys (JObj ctx) (map fst header_fields)"
    and "map_of ctx ''services'' = Some (JObj svcs)"
    and "svcs \<noteq> []"
    and "distinct (map fst svcs)"
    and "list_all (\<lambda>e. has_keys (snd e) (map fst service_fields)) svcs"
  shows "\<exists>ordered. mset ordered = mset svcs \<and> sorted_wrt (<) (map fst ordered) \<and>
    main L inp =
      (None, header_text L (JObj ctx) @ unlines [''Services:''] @
             concat (map (service_block L) ordered))"
proof (intro exI conjI)
  show "mset (sort_key fst svcs) = mset svcs" by simp
  show "sorted_wrt (<) (map fst (sort_key fst svcs))"
    using assms(5) by (rule sort_key_fst_strict)
  have "list_all (\<lambda>e. has_keys (snd e) (map fst service_fields)) (sort_key fst svcs)"
    using assms(6) by (simp add: list_all_iff)
  then show "main L inp =
      (None, header_text L (JObj ctx) @ unlines [''Services:''] @
             concat (map (service_block L) (sort_key fst svcs)))"
    by (simp add: main_services [OF assms(1-4)] for_services_complete)
qed

text \<open>The second scenario of the specification: \<^verbatim>\<open>web\<close> is listed first, \<^verbatim>\<open>api\<close> is printed first.\<close>

theorem services_in_ascending_order_witness:
  "(\<exists>ordered. mset ordered = mset [web, api] \<and> sorted_wrt (<) (map fst ordered) \<and>
      main (reading [(''doc'', acme_doc (JObj [web, api]))]) ''doc'' =
        (None, unlines [''Project: acme'', ''Hash: abc123'', ''Domain: acme.dev'', []] @
               unlines [''Services:''] @
               concat (map (service_block (reading [(''doc'', acme_doc (JObj [web, api]))]))
                 ordered))) \<and>
   main (reading [(''doc'', acme_doc (JObj [web, api]))]) ''doc'' =
     (None, unlines [''Project: acme'', ''Hash: abc123'', ''Domain: acme.dev'', [],
        ''Services:'',
        ''  api:'', ''    DNS:  api.svc'', ''    Port: 9090'',
        ''    URL:  http://api.acme.dev'', [],
        ''  web:'', ''    DNS:  web.svc'', ''    Port: 8080'',
        ''    URL:  http://web.acme.dev'', []])"
proof (rule conjI)
  have "\<exists>ordered. mset ordered = mset [web, api] \<and> sorted_wrt (<) (map fst ordered) \<and>
      main (reading [(''doc'', JObj (acme @ [(''services'', JObj [web, api])]))]) ''doc'' =
        (None, header_text (reading [(''doc'', JObj (acme @ [(''services'', JObj [web, api])]))])
                 (JObj (acme @ [(''services'', JObj [web, api])])) @
               unlines [''Services:''] @
               concat (map (service_block
                   (reading [(''doc'', JObj (acme @ [(''services'', JObj [web, api])]))]))
                 ordered))"
  proof (rule services_in_ascending_order [OF load_reading acme_doc_keys acme_doc_services])
    show "[web, api] \<noteq> []" by simp
    show "distinct (map fst [web, api])"
      by (simp add: web_def api_def)
    show "list_all (\<lambda>e. has_keys (snd e) (map fst service_fields)) [web, api]"
      by (simp add: web_def api_def service_fields_def)
  qed
  then show "\<exists>ordered. mset ordered = mset [web, api] \<and> sorted_wrt (<) (map fst ordered) \<and>
      main (reading [(''doc'', acme_doc (JObj [web, api]))]) ''doc'' =
        (None, unlines [''Project: acme'', ''Hash: abc123'', ''Domain: acme.dev'', []] @
               unlines [''Services:''] @
               concat (map (service_block (reading [(''doc'', acme_doc (JObj [web, api]))]))
                 ordered))"
    unfolding acme_header acme_doc_def .
  show "main (reading [(''doc'', acme_doc (JObj [web, api]))]) ''doc'' =
     (None, unlines [''Project: acme'', ''Hash: abc123'', ''Domain: acme.dev'', [],
        ''Services:'',
        ''  api:'', ''    DNS:  api.svc'', ''    Port: 9090'',
        ''    URL:  http://api.acme.dev'', [],
        ''  web:'', ''    DNS:  web.svc'', ''    Port: 8080'',
        ''    URL:  http://web.acme.dev'', []])"
    by (simp add: main_def example_defs print_field_def show_int_def show_nat.simps)
qed

subsection \<open>C2: no services\<close>

text \<open>
  C2. For a valid document (the three header fields are strings) whose \<^verbatim>\<open>services\<close> key
  is absent or maps to the empty mapping, the run completes without an exception and
  the output is exactly the lines \<^verbatim>\<open>Project: <project_name>\<close>, \<^verbatim>\<open>Hash: <hash>\<close>,
  \<^verbatim>\<open>Domain: <base_domain>\<close>, a blank line and \<^verbatim>\<open>No services configured.\<close>, with
  nothing after.
\<close>

theorem no_services_output:
  assumes "json_load L inp = Some (JObj ctx)"
    and "map_of ctx ''project_name'' = Some (JStr p)"
    and "map_of ctx ''hash'' = Some (JStr h)"
    and "map_of ctx ''base_domain'' = Some (JStr d)"
    and "map_of ctx ''services'' = None \<or> map_of ctx ''services'' = Some (JObj [])"
  shows "main L inp =
    (None, unlines [''Project: '' @ p, ''Hash: '' @ h, ''Domain: '' @ d, [],
                    ''No services configured.''])"
proof -
  have keys: "has_keys (JObj ctx) (map fst header_fields)"
    using assms(2-4) by (simp add: header_fields_def)
  have header:
    "header_text L (JObj ctx) = unlines [''Project: '' @ p, ''Hash: '' @ h, ''Domain: '' @ d, []]"
    using assms(2-4) by (simp add: header_text_def header_fields_def)
  show ?thesis
    using assms(5) by (auto simp: main_header [OF assms(1) keys] header py_print_def)
qed

text \<open>The first scenario of the specification, and the same document without the key.\<close>

theorem no_services_output_witness:
  "main (reading [(''doc'', acme_doc (JObj []))]) ''doc'' =
     (None, unlines [''Project: acme'', ''Hash: abc123'', ''Domain: acme.dev'', [],
                     ''No services configured.'']) \<and>
   main (reading [(''doc'', JObj acme)]) ''doc'' =
     (None, unlines [''Project: acme'', ''Hash: abc123'', ''Domain: acme.dev'', [],
                     ''No services configured.''])"
  using no_services_output
          [OF load_reading, of "acme @ [(''services'', JObj [])]" "''acme''" "''abc123''"
              "''acme.dev''" "''doc''"]
        no_services_output
          [OF load_reading, of acme "''acme''" "''abc123''" "''acme.dev''" "''doc''"]
  by (simp add: acme_def acme_doc_def)

subsection \<open>C3: a missing header key\<close>

text \<open>
  C3. For every top-level object that lacks one of \<^verbatim>\<open>project_name\<close>, \<^verbatim>\<open>hash\<close>,
  \<^verbatim>\<open>base_domain\<close>, the run ends with a \<^verbatim>\<open>KeyError\<close> for the first of these keys that
  is absent (in that order); no value is printed in its place, and the output is
  exactly the header lines of the keys before it.
\<close>

theorem missing_required_key:
  assumes "json_load L inp = Some (JObj ctx)"
    and "\<not> has_keys (JObj ctx) (map fst header_fields)"
    and "present = takeWhile (\<lambda>f. map_of ctx (fst f) \<noteq> None) header_fields"
  shows "length present < length header_fields \<and>
    map_of ctx (fst (header_fields ! length present)) = None \<and>
    main L inp =
      (Some (KeyError (fst (header_fields ! length present))),
       unlines (map (field_line L (JObj ctx)) present))"
  using assms
  by (auto simp: main_def header_fields_def print_field_Some print_field_None)

text \<open>A document without \<^verbatim>\<open>hash\<close>, and the fourth scenario (no \<^verbatim>\<open>base_domain\<close>).\<close>

theorem missing_required_key_witness:
  "main (reading [(''doc'', JObj [(''project_name'', JStr ''acme''),
                                   (''base_domain'', JStr ''acme.dev'')])]) ''doc'' =
     (Some (KeyError ''hash''), unlines [''Project: acme'']) \<and>
   main (reading [(''doc'', JObj [(''project_name'', JStr ''acme''),
                                   (''hash'', JStr ''abc123'')])]) ''doc'' =
     (Some (KeyError ''base_domain''), unlines [''Project: acme'', ''Hash: abc123''])"
  using missing_required_key
          [OF load_reading _ refl,
           of "[(''project_name'', JStr ''acme''), (''base_domain'', JStr ''acme.dev'')]"]
        missing_required_key
          [OF load_reading _ refl,
           of "[(''project_name'', JStr ''acme''), (''hash'', JStr ''abc123'')]"]
  by (simp add: header_fields_def)

subsection \<open>C4: input that is not valid JSON, or not an object\<close>

text \<open>
  C4, amended. For every input stream that the decoder rejects, and so for every stream
  that is not valid JSON and contains neither \<^verbatim>\<open>NaN\<close> nor \<^verbatim>\<open>Infinity\<close>, the run ends
  with the decoder's exception; for every stream that decodes to a value that is not an
  object it ends with the \<^verbatim>\<open>TypeError\<close> of subscripting that value with a string. In
  both cases nothing has been written to the output. (The decoder reads the literals
  \<^verbatim>\<open>NaN\<close>, \<^verbatim>\<open>Infinity\<close> and \<^verbatim>\<open>-Infinity\<close>, which the standard does not have: a
  stream that uses them is decoded and reported like any other.)
\<close>

theorem undecodable_input_fails_before_output:
  "(json_loads True C inp = None \<longrightarrow>
      main (python C rs) inp = (Some JSONDecodeError, [])) \<and>
   (\<not> valid_json C inp \<and> no_constants inp \<longrightarrow>
      main (python C rs) inp = (Some JSONDecodeError, [])) \<and>
   (\<forall>v. json_loads True C inp = Some v \<and> (\<forall>kvs. v \<noteq> JObj kvs) \<longrightarrow>
      main (python C rs) inp = (Some TypeError, []))"
proof (intro conjI impI allI)
  assume "json_loads True C inp = None"
  then show "main (python C rs) inp = (Some JSONDecodeError, [])"
    using main_without_document [of "python C rs" inp] by (simp add: python_def)
next
  assume "\<not> valid_json C inp \<and> no_constants inp"
  then have "json_loads True C inp = None"
    using json_loads_no_constants [of inp True C] by (simp add: valid_json_def)
  then show "main (python C rs) inp = (Some JSONDecodeError, [])"
    using main_without_document [of "python C rs" inp] by (simp add: python_def)
next
  fix v
  assume "json_loads True C inp = Some v \<and> (\<forall>kvs. v \<noteq> JObj kvs)"
  then show "main (python C rs) inp = (Some TypeError, [])"
    using main_without_document [of "python C rs" inp] by (simp add: python_def)
qed

text \<open>The third scenario of the specification, and a list and a number at top level.\<close>

theorem undecodable_input_fails_before_output_witness:
  "\<not> valid_json plain ''not valid json'' \<and> no_constants ''not valid json'' \<and>
   main (python plain quoted) ''not valid json'' = (Some JSONDecodeError, []) \<and>
   json_loads True plain ''[1, 2]'' = Some (JArr [JInt 1, JInt 2]) \<and>
   main (python plain quoted) ''[1, 2]'' = (Some TypeError, []) \<and>
   json_loads True plain '' 42 '' = Some (JInt 42) \<and>
   main (python plain quoted) '' 42 '' = (Some TypeError, [])"
proof -
  have invalid: "\<not> valid_json plain ''not valid json''"
    by (simp add: valid_json_def scan_simps)
  have clean: "no_constants ''not valid json''"
    by (simp add: no_constants_def sublist_code)
  have list: "json_loads True plain ''[1, 2]'' = Some (JArr [JInt 1, JInt 2])"
    by (simp add: scan_simps)
  have number: "json_loads True plain '' 42 '' = Some (JInt 42)"
    by (simp add: scan_simps)
  show ?thesis
    using undecodable_input_fails_before_output [of plain "''not valid json''" quoted]
      undecodable_input_fails_before_output [of plain "''[1, 2]''" quoted]
      undecodable_input_fails_before_output [of plain "'' 42 ''" quoted]
      invalid clean list number
    by simp
qed

text \<open>
  The claim as the specification words it does not hold: the document \<open>nan_text\<close> is
  not valid JSON, and yet it is decoded and the whole report is written.
\<close>

theorem nan_document_is_reported:
  "\<not> valid_json plain nan_text \<and>
   main (python plain quoted) nan_text =
     (None, unlines [''Project: acme'', ''Hash: abc123'', ''Domain: acme.dev'', [],
        ''Services:'',
        ''  web:'', ''    DNS:  web.svc'', ''    Port: nan'',
        ''    URL:  http://web.acme.dev'', []])"
proof
  show "\<not> valid_json plain nan_text"
    by (simp add: valid_json_def nan_text_def dq_def plain_def scan_simps)
  have "json_loads True plain nan_text =
     Some (JObj [(''project_name'', JStr ''acme''), (''hash'', JStr ''abc123''),
                 (''base_domain'', JStr ''acme.dev''),
                 (''services'', JObj [(''web'', JObj [(''dns_name'', JStr ''web.svc''),
                    (''internal_port'', JFloat ''nan''),
                    (''url'', JStr ''http://web.acme.dev'')])])])"
    by (simp add: nan_text_def dq_def plain_def scan_simps)
  then show "main (python plain quoted) nan_text =
     (None, unlines [''Project: acme'', ''Hash: abc123'', ''Domain: acme.dev'', [],
        ''Services:'',
        ''  web:'', ''    DNS:  web.svc'', ''    Port: nan'',
        ''    URL:  http://web.acme.dev'', []])"
    by (simp add: main_def python_def print_field_def)
qed

subsection \<open>C5: a service entry without one of its sub-fields\<close>

text \<open>
  C5. For every document with its header keys whose \<^verbatim>\<open>services\<close> maps names to
  mappings, one of which lacks \<^verbatim>\<open>dns_name\<close>, \<^verbatim>\<open>internal_port\<close> or \<^verbatim>\<open>url\<close>: the run ends
  with a \<^verbatim>\<open>KeyError\<close> at the first such entry in the order of the names, for the first
  sub-field it lacks. The output stops there: after the header, \<^verbatim>\<open>Services:\<close> and the
  blocks of the entries before it come the name line of that entry and the lines of the
  sub-fields before the missing one, and nothing of any later entry.
\<close>

theorem missing_sub_field_aborts:
  assumes "json_load L inp = Some (JObj ctx)"
    and "has_keys (JObj ctx) (map fst header_fields)"
    and "map_of ctx ''services'' = Some (JObj svcs)"
    and "list_all (\<lambda>e. \<exists>kvs. snd e = JObj kvs) svcs"
    and "\<exists>e\<in>set svcs. \<not> has_keys (snd e) (map fst service_fields)"
  shows "\<exists>earlier name kvs later present.
    sort_key fst svcs = earlier @ (name, JObj kvs) # later \<and>
    list_all (\<lambda>e. has_keys (snd e) (map fst service_fields)) earlier \<and>
    present = takeWhile (\<lambda>f. map_of kvs (fst f) \<noteq> None) service_fields \<and>
    length present < length service_fields \<and>
    main L inp =
      (Some (KeyError (fst (service_fields ! length present))),
       header_text L (JObj ctx) @ unlines [''Services:''] @
       concat (map (service_block L) earlier) @
       unlines ((''  '' @ name @ '':'') # map (field_line L (JObj kvs)) present))"
proof -
  have nonempty: "svcs \<noteq> []"
    using assms(5) by auto
  have "\<exists>e\<in>set (sort_key fst svcs). \<not> has_keys (snd e) (map fst service_fields)"
    using assms(5) by simp
  from first_incomplete [OF this]
  obtain earlier e later where split: "sort_key fst svcs = earlier @ e # later"
    and earlier: "list_all (\<lambda>e. has_keys (snd e) (map fst service_fields)) earlier"
    and bad: "\<not> has_keys (snd e) (map fst service_fields)"
    by blast
  have "e \<in> set svcs"
    using split by (metis in_set_conv_decomp set_sort)
  with assms(4) have "\<exists>kvs. snd e = JObj kvs"
    unfolding list_all_iff by blast
  then obtain name kvs where e: "e = (name, JObj kvs)"
    by (cases e) auto
  have bad': "\<not> has_keys (JObj kvs) (map fst service_fields)"
    using bad e by simp
  have short:
    "length (takeWhile (\<lambda>f. map_of kvs (fst f) \<noteq> None) service_fields) < length service_fields"
    using bad' by (auto simp: service_fields_def)
  have "main L inp =
      (Some (KeyError (fst (service_fields !
          length (takeWhile (\<lambda>f. map_of kvs (fst f) \<noteq> None) service_fields)))),
       header_text L (JObj ctx) @ unlines [''Services:''] @
       concat (map (service_block L) earlier) @
       unlines ((''  '' @ name @ '':'') #
         map (field_line L (JObj kvs))
           (takeWhile (\<lambda>f. map_of kvs (fst f) \<noteq> None) service_fields)))"
    unfolding main_services [OF assms(1-3) nonempty] split e
    by (simp add: for_services_append [OF earlier] for_services_missing [OF bad']
        del: for_services.simps)
  with split e earlier short show ?thesis
    by blast
qed

text \<open>
  Three services, of which \<^verbatim>\<open>db\<close> has no \<^verbatim>\<open>dns_name\<close>: \<^verbatim>\<open>api\<close> is printed, the run
  ends at \<^verbatim>\<open>db\<close>, and \<^verbatim>\<open>web\<close> is never reached.
\<close>

theorem missing_sub_field_aborts_witness:
  "(\<exists>earlier name kvs later present.
      sort_key fst [web, db, api] = earlier @ (name, JObj kvs) # later \<and>
      list_all (\<lambda>e. has_keys (snd e) (map fst service_fields)) earlier \<and>
      present = takeWhile (\<lambda>f. map_of kvs (fst f) \<noteq> None) service_fields \<and>
      length present < length service_fields \<and>
      main (reading [(''doc'', acme_doc (JObj [web, db, api]))]) ''doc'' =
        (Some (KeyError (fst (service_fields ! length present))),
         unlines [''Project: acme'', ''Hash: abc123'', ''Domain: acme.dev'', []] @
         unlines [''Services:''] @
         concat (map (service_block (reading [(''doc'', acme_doc (JObj [web, db, api]))]))
           earlier) @
         unlines ((''  '' @ name @ '':'') #
           map (field_line (reading [(''doc'', acme_doc (JObj [web, db, api]))]) (JObj kvs))
             present))) \<and>
   main (reading [(''doc'', acme_doc (JObj [web, db, api]))]) ''doc'' =
     (Some (KeyError ''dns_name''),
      unlines [''Project: acme'', ''Hash: abc123'', ''Domain: acme.dev'', [],
        ''Services:'',
        ''  api:'', ''    DNS:  api.svc'', ''    Port: 9090'',
        ''    URL:  http://api.acme.dev'', [],
        ''  db:''])"
proof (rule conjI)
  have "\<exists>earlier name kvs later present.
      sort_key fst [web, db, api] = earlier @ (name, JObj kvs) # later \<and>
      list_all (\<lambda>e. has_keys (snd e) (map fst service_fields)) earlier \<and>
      present = takeWhile (\<lambda>f. map_of kvs (fst f) \<noteq> None) service_fields \<and>
      length present < length service_fields \<and>
      main (reading [(''doc'', JObj (acme @ [(''services'', JObj [web, db, api])]))]) ''doc'' =
        (Some (KeyError (fst (service_fields ! length present))),
         header_text (reading [(''doc'', JObj (acme @ [(''services'', JObj [web, db, api])]))])
           (JObj (acme @ [(''services'', JObj [web, db, api])])) @
         unlines [''Services:''] @
         concat (map (service_block
             (reading [(''doc'', JObj (acme @ [(''services'', JObj [web, db, api])]))]))
           earlier) @
         unlines ((''  '' @ name @ '':'') #
           map (field_line
               (reading [(''doc'', JObj (acme @ [(''services'', JObj [web, db, api])]))])
               (JObj kvs))
             present))"
  proof (rule missing_sub_field_aborts [OF load_reading acme_doc_keys acme_doc_services])
    show "list_all (\<lambda>e. \<exists>kvs. snd e = JObj kvs) [web, db, api]"
      by (simp add: web_def api_def db_def)
    show "\<exists>e\<in>set [web, db, api]. \<not> has_keys (snd e) (map fst service_fields)"
      by (simp add: db_def service_fields_def)
  qed
  then show "\<exists>earlier name kvs later present.
      sort_key fst [web, db, api] = earlier @ (name, JObj kvs) # later \<and>
      list_all (\<lambda>e. has_keys (snd e) (map fst service_fields)) earlier \<and>
      present = takeWhile (\<lambda>f. map_of kvs (fst f) \<noteq> None) service_fields \<and>
      length present < length service_fields \<and>
      main (reading [(''doc'', acme_doc (JObj [web, db, api]))]) ''doc'' =
        (Some (KeyError (fst (service_fields ! length present))),
         unlines [''Project: acme'', ''Hash: abc123'', ''Domain: acme.dev'', []] @
         unlines [''Services:''] @
         concat (map (service_block (reading [(''doc'', acme_doc (JObj [web, db, api]))]))
           earlier) @
         unlines ((''  '' @ name @ '':'') #
           map (field_line (reading [(''doc'', acme_doc (JObj [web, db, api]))]) (JObj kvs))
             present))"
    unfolding acme_header acme_doc_def .
  show "main (reading [(''doc'', acme_doc (JObj [web, db, api]))]) ''doc'' =
     (Some (KeyError ''dns_name''),
      unlines [''Project: acme'', ''Hash: abc123'', ''Domain: acme.dev'', [],
        ''Services:'',
        ''  api:'', ''    DNS:  api.svc'', ''    Port: 9090'',
        ''    URL:  http://api.acme.dev'', [],
        ''  db:''])"
    by (simp add: main_def example_defs print_field_def show_int_def show_nat.simps)
qed

subsection \<open>C6: the block shows the values as they are\<close>

text \<open>
  C6. For a service entry of a valid document with \<^verbatim>\<open>dns_name\<close> and \<^verbatim>\<open>url\<close> strings and
  \<^verbatim>\<open>internal_port\<close> an integer, the output contains the block of that entry with the two
  strings verbatim (the very characters, nothing changed) and the port in its natural
  decimal representation.
\<close>

theorem block_shows_exact_values:
  assumes "json_load L inp = Some (JObj ctx)"
    and "has_keys (JObj ctx) (map fst header_fields)"
    and "map_of ctx ''services'' = Some (JObj svcs)"
    and "list_all (\<lambda>e. has_keys (snd e) (map fst service_fields)) svcs"
    and "(name, JObj kvs) \<in> set svcs"
    and "map_of kvs ''dns_name'' = Some (JStr dns)"
    and "map_of kvs ''internal_port'' = Some (JInt port)"
    and "map_of kvs ''url'' = Some (JStr url)"
  shows "\<exists>port_text before after. is_decimal_of port_text port \<and>
    main L inp =
      (None, before @
         unlines [''  '' @ name @ '':'', ''    DNS:  '' @ dns,
                  ''    Port: '' @ port_text, ''    URL:  '' @ url, []] @ after)"
proof -
  have "service_block L (name, JObj kvs) =
       unlines [''  '' @ name @ '':'', ''    DNS:  '' @ dns,
                ''    Port: '' @ show_int port, ''    URL:  '' @ url, []]"
    using assms(6-8) by (simp add: service_block_def service_fields_def)
  with block_in_output [OF assms(1-5)] show_int_decimal [of port] show ?thesis
    by metis
qed

theorem block_shows_exact_values_witness:
  "(\<exists>port_text before after. is_decimal_of port_text 8080 \<and>
     main (reading [(''doc'', acme_doc (JObj [web, api]))]) ''doc'' =
       (None, before @
          unlines [''  web:'', ''    DNS:  web.svc'', ''    Port: '' @ port_text,
                   ''    URL:  http://web.acme.dev'', []] @ after)) \<and>
   is_decimal_of ''8080'' 8080 \<and> \<not> is_decimal_of ''08080'' 8080 \<and>
   \<not> is_decimal_of ''8080.0'' 8080 \<and> is_decimal_of ''-17'' (- 17)"
proof (intro conjI)
  have "\<exists>port_text before after. is_decimal_of port_text 8080 \<and>
     main (reading [(''doc'', JObj (acme @ [(''services'', JObj [web, api])]))]) ''doc'' =
       (None, before @
          unlines [''  '' @ ''web'' @ '':'', ''    DNS:  '' @ ''web.svc'',
                   ''    Port: '' @ port_text,
                   ''    URL:  '' @ ''http://web.acme.dev'', []] @ after)"
  proof (rule block_shows_exact_values [OF load_reading acme_doc_keys acme_doc_services])
    show "list_all (\<lambda>e. has_keys (snd e) (map fst service_fields)) [web, api]"
      by (simp add: web_def api_def service_fields_def)
    show "(''web'', JObj [(''dns_name'', JStr ''web.svc''), (''internal_port'', JInt 8080),
                         (''url'', JStr ''http://web.acme.dev'')]) \<in> set [web, api]"
      by (simp add: web_def)
  qed simp_all
  then show "\<exists>port_text before after. is_decimal_of port_text 8080 \<and>
     main (reading [(''doc'', acme_doc (JObj [web, api]))]) ''doc'' =
       (None, before @
          unlines [''  web:'', ''    DNS:  web.svc'', ''    Port: '' @ port_text,
                   ''    URL:  http://web.acme.dev'', []] @ after)"
    by (simp add: acme_doc_def)
  show "is_decimal_of ''8080'' 8080"
    by (simp add: is_decimal_of_def is_digit_def decimal_value_def digit_value_def)
  show "\<not> is_decimal_of ''08080'' 8080"
    by (simp add: is_decimal_of_def)
  show "\<not> is_decimal_of ''8080.0'' 8080"
    by (simp add: is_decimal_of_def is_digit_def)
  show "is_decimal_of ''-17'' (- 17)"
    by (simp add: is_decimal_of_def is_digit_def decimal_value_def digit_value_def)
qed

subsection \<open>C7: the run is determined by the input\<close>

text \<open>
  C7. A run is a function of the library and of the text on standard input: the program
  reads nothing else. Beyond that, two runs on the same input end the same way and
  write the same bytes even if their documents list the items of the \<^verbatim>\<open>services\<close>
  mapping, or the keys of the top-level object, in different orders: the iteration order
  of the containers has no influence.
\<close>

theorem same_run_whatever_the_order:
  assumes "json_load L inp = Some (JObj c1)"
    and "json_load L' inp = Some (JObj c2)"
    and "repr_str L' = repr_str L"
    and "\<forall>k. k \<noteq> ''services'' \<longrightarrow> map_of c2 k = map_of c1 k"
    and "rel_option reordered (map_of c1 ''services'') (map_of c2 ''services'')"
  shows "main L' inp = main L inp"
proof -
  have "\<forall>k\<in>set (map fst header_fields). map_of c1 k = map_of c2 k"
    using assms(4) by (simp add: header_fields_def)
  from main_agree [OF assms(1,2) assms(3) [symmetric] this assms(5)]
  show ?thesis by simp
qed

text \<open>The document of the second scenario, and the same with both dicts in another order.\<close>

theorem same_run_whatever_the_order_witness:
  "main (reading [(''doc'', JObj ((''services'', JObj [api, web]) # rev acme))]) ''doc'' =
   main (reading [(''doc'', acme_doc (JObj [web, api]))]) ''doc''"
  unfolding acme_doc_def
proof (rule same_run_whatever_the_order [OF load_reading load_reading])
  show "repr_str (reading [(''doc'', JObj ((''services'', JObj [api, web]) # rev acme))]) =
        repr_str (reading [(''doc'', JObj (acme @ [(''services'', JObj [web, api])]))])"
    by (simp add: reading_def)
  show "\<forall>k. k \<noteq> ''services'' \<longrightarrow>
          map_of ((''services'', JObj [api, web]) # rev acme) k =
          map_of (acme @ [(''services'', JObj [web, api])]) k"
    by (simp add: acme_def)
  show "rel_option reordered (map_of (acme @ [(''services'', JObj [web, api])]) ''services'')
          (map_of ((''services'', JObj [api, web]) # rev acme) ''services'')"
    by (simp add: acme_def web_def api_def)
qed

subsection \<open>C8: a services value that is present but falsy\<close>

text \<open>
  C8. When the \<^verbatim>\<open>services\<close> key is present with the value \<^verbatim>\<open>null\<close>, \<^verbatim>\<open>false\<close>, \<^verbatim>\<open>0\<close>,
  the empty string or the empty array, the run does not fail: it writes the header and
  \<^verbatim>\<open>No services configured.\<close>, as it does for an absent key or the empty mapping.
\<close>

theorem falsy_services_value:
  assumes "json_load L inp = Some (JObj ctx)"
    and "has_keys (JObj ctx) (map fst header_fields)"
    and "map_of ctx ''services'' = Some v"
    and "v \<in> {JNull, JBool False, JInt 0, JStr [], JArr []}"
  shows "main L inp = (None, header_text L (JObj ctx) @ unlines [''No services configured.''])"
  using assms(3,4) by (auto simp: main_header [OF assms(1,2)] py_print_def)

theorem falsy_services_value_witness:
  "main (reading [(''doc'', acme_doc JNull)]) ''doc'' =
     (None, unlines [''Project: acme'', ''Hash: abc123'', ''Domain: acme.dev'', [],
                     ''No services configured.'']) \<and>
   main (reading [(''doc'', acme_doc (JArr []))]) ''doc'' =
     (None, unlines [''Project: acme'', ''Hash: abc123'', ''Domain: acme.dev'', [],
                     ''No services configured.'']) \<and>
   main (reading [(''doc'', acme_doc (JInt 0))]) ''doc'' =
     (None, unlines [''Project: acme'', ''Hash: abc123'', ''Domain: acme.dev'', [],
                     ''No services configured.''])"
proof -
  have run: "main (reading [(''doc'', JObj (acme @ [(''services'', v)]))]) ''doc'' =
      (None, unlines [''Project: acme'', ''Hash: abc123'', ''Domain: acme.dev'', [],
                      ''No services configured.''])"
    if "v \<in> {JNull, JBool False, JInt 0, JStr [], JArr []}" for v
    using falsy_services_value [OF load_reading acme_doc_keys acme_doc_services that]
    by (simp add: acme_header)
  show ?thesis
    unfolding acme_doc_def by (simp add: run)
qed

subsection \<open>C9: keys outside the schema\<close>

text \<open>
  C9. Two documents that agree on \<^verbatim>\<open>project_name\<close>, \<^verbatim>\<open>hash\<close>, \<^verbatim>\<open>base_domain\<close> and
  \<^verbatim>\<open>services\<close> (each absent in both, or present with the same value) give the same run,
  whatever other top-level keys they have.
\<close>

theorem unknown_keys_ignored:
  assumes "json_load L inp1 = Some (JObj c1)"
    and "json_load L inp2 = Some (JObj c2)"
    and "\<forall>k\<in>set [''project_name'', ''hash'', ''base_domain'', ''services''].
           map_of c1 k = map_of c2 k"
  shows "main L inp1 = main L inp2"
proof -
  have "\<forall>k\<in>set (map fst header_fields). map_of c1 k = map_of c2 k"
    using assms(3) by (simp add: header_fields_def)
  moreover have "reordered v v" for v
    by (cases v) simp_all
  then have "rel_option reordered (map_of c1 ''services'') (map_of c2 ''services'')"
    using assms(3) by (cases "map_of c2 ''services''") simp_all
  ultimately show ?thesis
    using main_agree [OF assms(1,2) refl] by blast
qed

text \<open>The second input has the keys \<^verbatim>\<open>owner\<close> and \<^verbatim>\<open>tags\<close> in addition.\<close>

theorem unknown_keys_ignored_witness:
  "main (reading [(''plain'', acme_doc (JObj [web])),
                  (''extra'', JObj ((''owner'', JStr ''ops'') # acme @
                               [(''services'', JObj [web]), (''tags'', JArr [])]))]) ''plain'' =
   main (reading [(''plain'', acme_doc (JObj [web])),
                  (''extra'', JObj ((''owner'', JStr ''ops'') # acme @
                               [(''services'', JObj [web]), (''tags'', JArr [])]))]) ''extra''"
  by (rule unknown_keys_ignored
        [of _ _ "acme @ [(''services'', JObj [web])]" _
            "(''owner'', JStr ''ops'') # acme @ [(''services'', JObj [web]), (''tags'', JArr [])]"])
     (simp_all add: reading_def acme_doc_def acme_def)

subsection \<open>C10: the sub-fields are not type-checked\<close>

text \<open>
  C10. For a service entry whose three sub-fields are present, whatever the types of
  their values, the run does not fail (if the other entries are complete too), and the
  block of the entry shows for every sub-field the natural text of its value: a string
  as it is, an integer in decimal, a float as \<^verbatim>\<open>repr\<close> writes it, \<^verbatim>\<open>null\<close> as
  \<^verbatim>\<open>None\<close>, a list or a dict with its elements. The natural text is the relation
  \<open>str_text\<close>, which is stated apart from the program and holds of one text only
  (\<open>str_text_iff\<close>).
\<close>

theorem sub_fields_not_type_checked:
  assumes "json_load L inp = Some (JObj ctx)"
    and "has_keys (JObj ctx) (map fst header_fields)"
    and "map_of ctx ''services'' = Some (JObj svcs)"
    and "list_all (\<lambda>e. has_keys (snd e) (map fst service_fields)) svcs"
    and "(name, JObj kvs) \<in> set svcs"
    and "map_of kvs ''dns_name'' = Some dns"
    and "map_of kvs ''internal_port'' = Some port"
    and "map_of kvs ''url'' = Some url"
  shows "\<exists>dns_text port_text url_text before after.
    str_text L dns dns_text \<and> str_text L port port_text \<and> str_text L url url_text \<and>
    main L inp =
      (None, before @
         unlines [''  '' @ name @ '':'', ''    DNS:  '' @ dns_text,
                  ''    Port: '' @ port_text, ''    URL:  '' @ url_text, []] @ after)"
proof -
  have "service_block L (name, JObj kvs) =
       unlines [''  '' @ name @ '':'', ''    DNS:  '' @ py_str L dns,
                ''    Port: '' @ py_str L port, ''    URL:  '' @ py_str L url, []]"
    using assms(6-8) by (simp add: service_block_def service_fields_def)
  with block_in_output [OF assms(1-5)]
  obtain before after where "main L inp =
      (None, before @
         unlines [''  '' @ name @ '':'', ''    DNS:  '' @ py_str L dns,
                  ''    Port: '' @ py_str L port, ''    URL:  '' @ py_str L url, []] @ after)"
    by auto
  with py_str_text [of L dns] py_str_text [of L port] py_str_text [of L url]
  show ?thesis
    by blast
qed

text \<open>
  An entry with \<^verbatim>\<open>dns_name\<close> null, the port a string, and the URL a list that holds a
  float, a boolean and a string; and an entry whose port is a float.
\<close>

theorem sub_fields_not_type_checked_witness:
  "(\<exists>dns_text port_text url_text before after.
      str_text (reading [(''doc'', acme_doc (JObj [odd]))]) JNull dns_text \<and>
      str_text (reading [(''doc'', acme_doc (JObj [odd]))]) (JStr ''8080'') port_text \<and>
      str_text (reading [(''doc'', acme_doc (JObj [odd]))])
        (JArr [JFloat ''80.5'', JBool True, JStr ''x'']) url_text \<and>
      main (reading [(''doc'', acme_doc (JObj [odd]))]) ''doc'' =
        (None, before @
           unlines [''  odd:'', ''    DNS:  '' @ dns_text, ''    Port: '' @ port_text,
                    ''    URL:  '' @ url_text, []] @ after)) \<and>
   str_text (reading [(''doc'', acme_doc (JObj [odd]))]) JNull ''None'' \<and>
   str_text (reading [(''doc'', acme_doc (JObj [odd]))]) (JStr ''8080'') ''8080'' \<and>
   str_text (reading [(''doc'', acme_doc (JObj [odd]))])
     (JArr [JFloat ''80.5'', JBool True, JStr ''x'']) (''[80.5, True, '' @ quoted ''x'' @ '']'') \<and>
   main (reading [(''doc'', acme_doc (JObj [odd]))]) ''doc'' =
     (None, unlines [''Project: acme'', ''Hash: abc123'', ''Domain: acme.dev'', [],
        ''Services:'', ''  odd:'', ''    DNS:  None'', ''    Port: 8080'',
        ''    URL:  [80.5, True, '' @ quoted ''x'' @ '']'', []]) \<and>
   main (reading [(''doc'', acme_doc (JObj [(''p'', JObj [(''dns_name'', JStr ''p.svc''),
           (''internal_port'', JFloat ''80.5''), (''url'', JStr ''u'')])]))]) ''doc'' =
     (None, unlines [''Project: acme'', ''Hash: abc123'', ''Domain: acme.dev'', [],
        ''Services:'', ''  p:'', ''    DNS:  p.svc'', ''    Port: 80.5'', ''    URL:  u'', []])"
proof (intro conjI)
  have "\<exists>dns_text port_text url_text before after.
      str_text (reading [(''doc'', JObj (acme @ [(''services'', JObj [odd])]))]) JNull dns_text \<and>
      str_text (reading [(''doc'', JObj (acme @ [(''services'', JObj [odd])]))])
        (JStr ''8080'') port_text \<and>
      str_text (reading [(''doc'', JObj (acme @ [(''services'', JObj [odd])]))])
        (JArr [JFloat ''80.5'', JBool True, JStr ''x'']) url_text \<and>
      main (reading [(''doc'', JObj (acme @ [(''services'', JObj [odd])]))]) ''doc'' =
        (None, before @
           unlines [''  '' @ ''odd'' @ '':'', ''    DNS:  '' @ dns_text,
                    ''    Port: '' @ port_text, ''    URL:  '' @ url_text, []] @ after)"
  proof (rule sub_fields_not_type_checked [OF load_reading acme_doc_keys acme_doc_services])
    show "list_all (\<lambda>e. has_keys (snd e) (map fst service_fields)) [odd]"
      by (simp add: odd_def service_fields_def)
    show "(''odd'', JObj [(''dns_name'', JNull), (''internal_port'', JStr ''8080''),
                         (''url'', JArr [JFloat ''80.5'', JBool True, JStr ''x''])]) \<in> set [odd]"
      by (simp add: odd_def)
  qed simp_all
  then show "\<exists>dns_text port_text url_text before after.
      str_text (reading [(''doc'', acme_doc (JObj [odd]))]) JNull dns_text \<and>
      str_text (reading [(''doc'', acme_doc (JObj [odd]))]) (JStr ''8080'') port_text \<and>
      str_text (reading [(''doc'', acme_doc (JObj [odd]))])
        (JArr [JFloat ''80.5'', JBool True, JStr ''x'']) url_text \<and>
      main (reading [(''doc'', acme_doc (JObj [odd]))]) ''doc'' =
        (None, before @
           unlines [''  odd:'', ''    DNS:  '' @ dns_text, ''    Port: '' @ port_text,
                    ''    URL:  '' @ url_text, []] @ after)"
    by (simp add: acme_doc_def)
  show "str_text (reading [(''doc'', acme_doc (JObj [odd]))]) JNull ''None''"
    by (simp add: str_text_def repr_null)
  show "str_text (reading [(''doc'', acme_doc (JObj [odd]))]) (JStr ''8080'') ''8080''"
    by (simp add: str_text_def)
  show "str_text (reading [(''doc'', acme_doc (JObj [odd]))])
     (JArr [JFloat ''80.5'', JBool True, JStr ''x'']) (''[80.5, True, '' @ quoted ''x'' @ '']'')"
    using repr_list [OF more_elements [OF repr_float more_elements [OF repr_true
            last_element [OF repr_string]]],
          of "reading [(''doc'', acme_doc (JObj [odd]))]" "''80.5''" "''x''"]
    by (simp add: str_text_def reading_def)
  show "main (reading [(''doc'', acme_doc (JObj [odd]))]) ''doc'' =
     (None, unlines [''Project: acme'', ''Hash: abc123'', ''Domain: acme.dev'', [],
        ''Services:'', ''  odd:'', ''    DNS:  None'', ''    Port: 8080'',
        ''    URL:  [80.5, True, '' @ quoted ''x'' @ '']'', []])"
    by (simp add: main_def reading_def acme_doc_def acme_def odd_def print_field_def)
  show "main (reading [(''doc'', acme_doc (JObj [(''p'', JObj [(''dns_name'', JStr ''p.svc''),
           (''internal_port'', JFloat ''80.5''), (''url'', JStr ''u'')])]))]) ''doc'' =
     (None, unlines [''Project: acme'', ''Hash: abc123'', ''Domain: acme.dev'', [],
        ''Services:'', ''  p:'', ''    DNS:  p.svc'', ''    Port: 80.5'', ''    URL:  u'', []])"
    by (simp add: main_def example_defs print_field_def)
qed

end
